theory Spec2Isabelle
  imports Complex_Main
begin

section \<open>Python values shared by both scripts\<close>

text \<open>
  Exceptions of the Python run time that the two scripts can meet. A function of the
  model that can raise returns a sum, with \<open>Inl\<close> for the exception.
\<close>

datatype py_error = ValueError | ZeroDivisionError | IndexError | FileNotFoundError

text \<open>
  A Python \<open>str\<close> is modelled as a list of 8-bit characters, read as the code points
  U+0000 to U+00FF. \<open>isspace\<close> and \<open>lower_char\<close> are \<open>str.isspace\<close> and
  \<open>str.lower\<close> on that range.
\<close>

definition isspace :: "char \<Rightarrow> bool" where
  "isspace c = ((of_char c :: nat) \<in> set [9, 10, 11, 12, 13, 28, 29, 30, 31, 32, 133, 160])"

definition lower_char :: "char \<Rightarrow> char" where
  "lower_char c =
     (let n = (of_char c :: nat)
      in if (65 \<le> n \<and> n \<le> 90) \<or> (192 \<le> n \<and> n \<le> 222 \<and> n \<noteq> 215)
         then char_of (n + 32) else c)"

definition lower :: "string \<Rightarrow> string" where
  "lower s = map lower_char s"

definition strip :: "string \<Rightarrow> string" where
  "strip s = rev (dropWhile isspace (rev (dropWhile isspace s)))"

definition startswith :: "string \<Rightarrow> string \<Rightarrow> bool" where
  "startswith s p = (take (length p) s = p)"

definition endswith :: "string \<Rightarrow> string \<Rightarrow> bool" where
  "endswith s p = (length p \<le> length s \<and> drop (length s - length p) s = p)"

section \<open>milestone1/infy.py: the crawler\<close>

subsection \<open>The URL parser of the standard library\<close>

text \<open>
  \<open>urlparse\<close> belongs to Python's \<open>urllib.parse\<close>, not to this repository. The
  crawler reads two fields of its result and lets its \<open>ValueError\<close> pass through, so
  the functions below take the parser as a parameter of this type.
\<close>

record url_parts =
  scheme :: string
  netloc :: string

type_synonym url_parser = "string \<Rightarrow> py_error + url_parts"

text \<open>
  Modelled from the Python standard library (\<open>urllib.parse.urlsplit\<close> of CPython 3.12,
  which \<open>urlparse\<close> calls for these two fields): leading C0 control characters and
  spaces are dropped, tab, CR and LF are removed, the scheme is the text before the first
  colon when it starts with an ASCII letter and holds only letters, digits, \<open>+\<close>,
  \<open>-\<close> and \<open>.\<close>, the netloc is the text between a leading \<open>//\<close> and the next
  \<open>/\<close>, \<open>?\<close> or \<open>#\<close>, and a netloc with one square bracket but not the other
  raises \<open>ValueError\<close> ("Invalid IPv6 URL"). The validation of a bracketed host with
  both brackets and of a non-ASCII netloc is left out. It is used for concrete inputs
  only; every general statement is about an arbitrary parser.
\<close>

definition ascii_alpha :: "char \<Rightarrow> bool" where
  "ascii_alpha c = (let n = (of_char c :: nat) in (65 \<le> n \<and> n \<le> 90) \<or> (97 \<le> n \<and> n \<le> 122))"

definition scheme_char :: "char \<Rightarrow> bool" where
  "scheme_char c =
     (let n = (of_char c :: nat)
      in ascii_alpha c \<or> (48 \<le> n \<and> n \<le> 57) \<or> c \<in> set ''+-.'')"

definition split_scheme :: "string \<Rightarrow> string \<times> string" where
  "split_scheme url =
     (let head = takeWhile (\<lambda>c. c \<noteq> CHR '':'') url
      in if length head < length url \<and> head \<noteq> [] \<and> ascii_alpha (hd head) \<and> list_all scheme_char head
         then (lower head, drop (length head + 1) url)
         else ([], url))"

definition py_urlparse :: url_parser where
  "py_urlparse url0 =
     (let url1 = dropWhile (\<lambda>c. (of_char c :: nat) \<le> 32) url0;
          url2 = filter (\<lambda>c. (of_char c :: nat) \<notin> set [9, 10, 13]) url1;
          (sch, rest) = split_scheme url2
      in if take 2 rest = ''//''
         then (let nl = takeWhile (\<lambda>c. c \<notin> set ''/?#'') (drop 2 rest)
               in if (CHR ''['' \<in> set nl \<and> CHR '']'' \<notin> set nl) \<or>
                     (CHR '']'' \<in> set nl \<and> CHR ''['' \<notin> set nl)
                  then Inl ValueError
                  else Inr \<lparr>scheme = sch, netloc = nl\<rparr>)
         else Inr \<lparr>scheme = sch, netloc = []\<rparr>)"

subsection \<open>Task 3: \<open>is_valid_url\<close>\<close>

definition bad_prefixes :: "string list" where
  "bad_prefixes = [''mailto:'', ''javascript:'', ''tel:'', ''#'']"

text \<open>
  \<open>is_valid_url\<close>, lines 22 to 41. \<open>not url\<close> is true of the empty string only; the
  call of \<open>urlparse\<close> is not guarded, so what it raises leaves the function.
\<close>

definition is_valid_url :: "url_parser \<Rightarrow> string \<Rightarrow> py_error + bool" where
  "is_valid_url parse url =
     (if url = [] then Inr False
      else let url' = lower (strip url)
           in if list_ex (startswith url') bad_prefixes then Inr False
              else (case parse url' of
                      Inl e \<Rightarrow> Inl e
                    | Inr parsed \<Rightarrow> Inr (scheme parsed \<in> set [''http'', ''https''])))"

subsection \<open>What the crawler does not own\<close>

text \<open>
  The crawler calls four things it does not define: \<open>urlparse\<close> and \<open>urljoin\<close> of
  \<open>urllib.parse\<close> (both can raise \<open>ValueError\<close>), the anchor extraction of
  BeautifulSoup (\<open>find_hrefs body\<close> is the list of \<open>tag['href']\<close> over
  \<open>soup.find_all("a", href=True)\<close>, in document order) and the network.
  \<open>http_get n url\<close> is the outcome of the \<open>n\<close>-th request of the run when it asks for
  \<open>url\<close>: \<open>Some body\<close> when \<open>requests.get\<close> and \<open>raise_for_status\<close> return (the
  body is \<open>response.text\<close>), \<open>None\<close> when either raises. The same URL may fail at one
  request and succeed at a later one.
\<close>

record env =
  urlparse :: url_parser
  urljoin :: "string \<Rightarrow> string \<Rightarrow> py_error + string"
  find_hrefs :: "string \<Rightarrow> string list"
  http_get :: "nat \<Rightarrow> string \<Rightarrow> string option"

text \<open>
  The actions of a run that the claims speak about are logged in program order. \<open>Sleep\<close>
  counts milliseconds. Writing files is part of the state (\<open>pages\<close>) and of the result
  (\<open>visited_txt\<close>); that the file system itself fails is not modelled, nor is the clock
  read by \<open>time.time\<close>.
\<close>

datatype event =
    Get string
  | Sleep nat
  | Dequeue string
  | Enqueue string
  | Print_attempt_failed int string
  | Print_skipping string
  | Print_saved nat

record world =
  sent :: nat
  trace :: "event list"

record crawl_state = world +
  queue :: "string list"
  visited :: "string list"
  duplicate_urls :: nat
  page_id :: nat
  pages :: "(nat \<times> string) list"

subsection \<open>Task 6: \<open>fetch_with_retry\<close>\<close>

text \<open>
  Lines 47 to 61. The list argument is what is left of \<open>range(1, retries + 1)\<close>. When
  the range is exhausted without a \<open>return\<close> (only possible for \<open>retries < 1\<close>) the
  function falls off its end and returns \<open>None\<close>. The \<open>timeout\<close> argument only
  reaches \<open>requests.get\<close> and is part of \<open>http_get\<close>.
\<close>

fun retry_loop :: "env \<Rightarrow> string \<Rightarrow> int \<Rightarrow> int list \<Rightarrow> 'a world_scheme \<Rightarrow> string option \<times> 'a world_scheme" where
  "retry_loop E url retries [] w = (None, w)"
| "retry_loop E url retries (attempt # rest) w =
     (let w1 = w\<lparr>sent := sent w + 1, trace := trace w @ [Get url]\<rparr>
      in case http_get E (sent w) url of
           Some body \<Rightarrow> (Some body, w1)
         | None \<Rightarrow>
             (let w2 = w1\<lparr>trace := trace w1 @ [Print_attempt_failed attempt url]\<rparr>
              in if attempt = retries then (None, w2)
                 else retry_loop E url retries rest (w2\<lparr>trace := trace w2 @ [Sleep 1000]\<rparr>)))"

definition fetch_with_retry :: "env \<Rightarrow> string \<Rightarrow> int \<Rightarrow> 'a world_scheme \<Rightarrow> string option \<times> 'a world_scheme" where
  "fetch_with_retry E url retries w = retry_loop E url retries [1..retries] w"

subsection \<open>Tasks 1 to 5: \<open>crawl\<close>\<close>

text \<open>
  An exception leaves \<open>crawl\<close> with what was done so far: \<open>Inl (e, s)\<close> is the
  exception together with the state at the raise.
\<close>

type_synonym outcome = "(py_error \<times> crawl_state) + crawl_state"

definition set_add :: "string \<Rightarrow> string list \<Rightarrow> string list" where
  "set_add x xs = (if x \<in> set xs then xs else xs @ [x])"

text \<open>The \<open>for tag in soup.find_all(...)\<close> loop, lines 118 to 131.\<close>

fun enqueue_links :: "env \<Rightarrow> string \<Rightarrow> string \<Rightarrow> string list \<Rightarrow> crawl_state \<Rightarrow> outcome" where
  "enqueue_links E seed_domain current_url [] s = Inr s"
| "enqueue_links E seed_domain current_url (raw_link # rest) s =
     (case urljoin E current_url raw_link of
        Inl e \<Rightarrow> Inl (e, s)
      | Inr full_url \<Rightarrow>
          (case is_valid_url (urlparse E) full_url of
             Inl e \<Rightarrow> Inl (e, s)
           | Inr ok \<Rightarrow>
               if \<not> ok then enqueue_links E seed_domain current_url rest s
               else (case urlparse E full_url of
                       Inl e \<Rightarrow> Inl (e, s)
                     | Inr parsed \<Rightarrow>
                         if netloc parsed \<noteq> seed_domain
                         then enqueue_links E seed_domain current_url rest s
                         else enqueue_links E seed_domain current_url rest
                                (s\<lparr>trace := trace s @ [Enqueue full_url],
                                   queue := queue s @ [full_url]\<rparr>))))"

text \<open>
  One pass through the body of the \<open>while\<close> loop, lines 96 to 140. \<open>queue.pop(0)\<close>
  on an empty list raises \<open>IndexError\<close>; the loop condition rules that out.
\<close>

definition crawl_iter :: "env \<Rightarrow> string \<Rightarrow> crawl_state \<Rightarrow> outcome" where
  "crawl_iter E seed_domain s =
     (case queue s of
        [] \<Rightarrow> Inl (IndexError, s)
      | current_url # rest \<Rightarrow>
          (let s1 = s\<lparr>trace := trace s @ [Dequeue current_url], queue := rest\<rparr>
           in if current_url \<in> set (visited s1)
              then Inr (s1\<lparr>duplicate_urls := duplicate_urls s1 + 1\<rparr>)
              else (case fetch_with_retry E current_url 3 s1 of
                      (None, s2) \<Rightarrow> Inr (s2\<lparr>trace := trace s2 @ [Print_skipping current_url]\<rparr>)
                    | (Some body, s2) \<Rightarrow>
                        (let s3 = s2\<lparr>trace := trace s2 @ [Print_saved (page_id s2)],
                                      pages := pages s2 @ [(page_id s2, body)]\<rparr>
                         in case enqueue_links E seed_domain current_url (find_hrefs E body) s3 of
                              Inl err \<Rightarrow> Inl err
                            | Inr s4 \<Rightarrow>
                                Inr (s4\<lparr>trace := trace s4 @ [Sleep 500],
                                        visited := set_add current_url (visited s4),
                                        page_id := page_id s4 + 1\<rparr>)))))"

text \<open>
  The \<open>while\<close> loop, line 93. Each pass either shortens the queue with the visited set
  unchanged or adds one URL to the visited set, which the bound caps.
\<close>

lemma retry_loop_more: "world.more (snd (retry_loop E url retries as w)) = world.more w"
  by (induction as arbitrary: w) (auto simp: Let_def split: option.splits)

lemma fetch_keeps_crawl_fields:
  fixes s :: crawl_state
  assumes "fetch_with_retry E url retries s = (r, s')"
  shows "queue s' = queue s \<and> visited s' = visited s \<and> duplicate_urls s' = duplicate_urls s
         \<and> page_id s' = page_id s \<and> pages s' = pages s"
proof -
  have "world.more s' = world.more s"
    using assms retry_loop_more [of E url retries "[1..retries]" s]
    by (simp add: fetch_with_retry_def)
  then show ?thesis
    by (cases s, cases s') simp
qed

lemma enqueue_links_keeps:
  "enqueue_links E sd cur links s = Inr s' \<Longrightarrow>
     visited s' = visited s \<and> duplicate_urls s' = duplicate_urls s \<and> page_id s' = page_id s
     \<and> pages s' = pages s \<and> sent s' = sent s"
  by (induction links arbitrary: s) (auto split: sum.splits if_splits)

lemma crawl_iter_progress:
  assumes "crawl_iter E sd s = Inr s'"
  shows "(visited s' = visited s \<and> length (queue s') < length (queue s))
         \<or> length (visited s') = Suc (length (visited s))"
  using assms
  by (auto simp: crawl_iter_def Let_def set_add_def
      split: list.splits if_splits prod.splits option.splits sum.splits
      dest!: fetch_keeps_crawl_fields enqueue_links_keeps)

function crawl_loop :: "env \<Rightarrow> int \<Rightarrow> string \<Rightarrow> crawl_state \<Rightarrow> outcome" where
  "crawl_loop E MAX_PAGES seed_domain s =
     (if queue s \<noteq> [] \<and> int (length (visited s)) < MAX_PAGES
      then (case crawl_iter E seed_domain s of
              Inl err \<Rightarrow> Inl err
            | Inr s' \<Rightarrow> crawl_loop E MAX_PAGES seed_domain s')
      else Inr s)"
  by pat_completeness auto
termination
proof (relation "measures [\<lambda>(E, M, sd, s). nat (M - int (length (visited s))),
                           \<lambda>(E, M, sd, s). length (queue s)]")
  show "wf (measures [\<lambda>(E, M, sd, s). nat (M - int (length (visited s))),
                      \<lambda>(E, M, sd, s). length (queue s)])"
    by simp
next
  fix E :: env and MAX_PAGES :: int and seed_domain :: string and s s' :: crawl_state
  assume c: "queue s \<noteq> [] \<and> int (length (visited s)) < MAX_PAGES"
    and i: "crawl_iter E seed_domain s = Inr s'"
  from crawl_iter_progress [OF i] c
  show "((E, MAX_PAGES, seed_domain, s'), (E, MAX_PAGES, seed_domain, s))
        \<in> measures [\<lambda>(E, M, sd, s). nat (M - int (length (visited s))),
                     \<lambda>(E, M, sd, s). length (queue s)]"
    by auto
qed

declare crawl_loop.simps [simp del]

text \<open>
  \<open>crawl\<close>, lines 67 to 160: the initial values of lines 77 to 80, the seed domain of
  line 85, the loop, then \<open>visited.txt\<close> (one URL and a newline per member of the set;
  Python leaves the order of a set open, the model writes in order of insertion) and the
  three counts of the summary.
\<close>

record crawl_result =
  final :: crawl_state
  visited_txt :: string
  pages_crawled :: nat
  unique_urls :: nat
  duplicates :: nat

definition init_state :: "string \<Rightarrow> crawl_state" where
  "init_state seed_url =
     \<lparr>sent = 0, trace = [], queue = [seed_url], visited = [], duplicate_urls = 0,
      page_id = 1, pages = []\<rparr>"

definition crawl :: "env \<Rightarrow> string \<Rightarrow> int \<Rightarrow> (py_error \<times> crawl_state) + crawl_result" where
  "crawl E seed_url MAX_PAGES =
     (case urlparse E seed_url of
        Inl e \<Rightarrow> Inl (e, init_state seed_url)
      | Inr parsed \<Rightarrow>
          (case crawl_loop E MAX_PAGES (netloc parsed) (init_state seed_url) of
             Inl err \<Rightarrow> Inl err
           | Inr s \<Rightarrow>
               Inr \<lparr>final = s,
                    visited_txt = concat (map (\<lambda>url. url @ [CHR 0x0A]) (visited s)),
                    pages_crawled = length (visited s),
                    unique_urls = length (visited s),
                    duplicates = duplicate_urls s\<rparr>))"

section \<open>webscour/indexer/milestone3\_indexer.py: the indexer\<close>

text \<open>
  The script reads the directory listing (\<open>None\<close> when the pages folder does not exist,
  else the entries as pairs of file name and file content, in the order of
  \<open>os.listdir\<close>). \<open>get_text\<close> is BeautifulSoup's text extraction; \<open>split\<close> is
  \<open>str.split\<close> without argument.
\<close>

fun split_from :: "string \<Rightarrow> string \<Rightarrow> string list" where
  "split_from cur [] = (if cur = [] then [] else [cur])"
| "split_from cur (c # cs) =
     (if isspace c then (if cur = [] then split_from [] cs else cur # split_from [] cs)
      else split_from (cur @ [c]) cs)"

definition split :: "string \<Rightarrow> string list" where
  "split s = split_from [] s"

definition words_of :: "(string \<Rightarrow> string) \<Rightarrow> string \<Rightarrow> string list" where
  "words_of get_text content = split (lower (get_text content))"

text \<open>
  \<open>inverted_index\<close> is a \<open>defaultdict(list)\<close>: a dictionary in insertion order, here an
  association list. \<open>add_posting word file\<close> is \<open>inverted_index[word].append(file)\<close>,
  which creates the entry when the word is new. \<open>set(words)\<close> is iterated in an order
  Python leaves open; the model takes the order of \<open>remdups\<close>.
\<close>

fun add_posting :: "string \<Rightarrow> string \<Rightarrow> (string \<times> string list) list \<Rightarrow> (string \<times> string list) list" where
  "add_posting word file [] = [(word, [file])]"
| "add_posting word file ((k, docs) # rest) =
     (if k = word then (k, docs @ [file]) # rest else (k, docs) # add_posting word file rest)"

record index_state =
  inverted_index :: "(string \<times> string list) list"
  doc_count :: nat

definition index_file :: "(string \<Rightarrow> string) \<Rightarrow> string \<times> string \<Rightarrow> index_state \<Rightarrow> index_state" where
  "index_file get_text entry st =
     (case entry of (file, content) \<Rightarrow>
        if endswith file ''.html''
        then st\<lparr>doc_count := doc_count st + 1,
                inverted_index := fold (\<lambda>word. add_posting word file)
                                    (remdups (words_of get_text content)) (inverted_index st)\<rparr>
        else st)"

definition read_pages :: "(string \<Rightarrow> string) \<Rightarrow> (string \<times> string) list \<Rightarrow> index_state" where
  "read_pages get_text listing = fold (index_file get_text) listing \<lparr>inverted_index = [], doc_count = 0\<rparr>"

text \<open>
  Line 33, \<open>math.log(doc_count / len(docs))\<close>: the division of two Python ints raises
  \<open>ZeroDivisionError\<close> on a zero divisor and \<open>math.log\<close> raises \<open>ValueError\<close> on an
  argument that is not positive. The scores are real numbers here; the rounding of
  Python's floats is not modelled.
\<close>

definition true_div :: "nat \<Rightarrow> nat \<Rightarrow> py_error + real" where
  "true_div a b = (if b = 0 then Inl ZeroDivisionError else Inr (real a / real b))"

definition math_log :: "real \<Rightarrow> py_error + real" where
  "math_log x = (if x \<le> 0 then Inl ValueError else Inr (ln x))"

fun dict_set :: "string \<Rightarrow> 'v \<Rightarrow> (string \<times> 'v) list \<Rightarrow> (string \<times> 'v) list" where
  "dict_set k v [] = [(k, v)]"
| "dict_set k v ((k', v') # rest) =
     (if k' = k then (k', v) # rest else (k', v') # dict_set k v rest)"

fun compute_idf :: "nat \<Rightarrow> (string \<times> string list) list \<Rightarrow> (string \<times> real) list \<Rightarrow> py_error + (string \<times> real) list" where
  "compute_idf n [] idf = Inr idf"
| "compute_idf n ((word, docs) # rest) idf =
     (case true_div n (length docs) of
        Inl e \<Rightarrow> Inl e
      | Inr q \<Rightarrow>
          (case math_log q of
             Inl e \<Rightarrow> Inl e
           | Inr x \<Rightarrow> compute_idf n rest (dict_set word x idf)))"

record index_output =
  inverted_index_json :: "(string \<times> string list) list"
  idf_json :: "(string \<times> real) list"
  documents_indexed :: nat

definition milestone3_indexer :: "(string \<Rightarrow> string) \<Rightarrow> (string \<times> string) list option \<Rightarrow> py_error + index_output" where
  "milestone3_indexer get_text pages_dir =
     (case pages_dir of
        None \<Rightarrow> Inl FileNotFoundError
      | Some listing \<Rightarrow>
          (let st = read_pages get_text listing
           in case compute_idf (doc_count st) (inverted_index st) [] of
                Inl e \<Rightarrow> Inl e
              | Inr idf \<Rightarrow>
                  Inr \<lparr>inverted_index_json = inverted_index st, idf_json = idf,
                       documents_indexed = doc_count st\<rparr>))"

section \<open>Vocabulary of the properties and concrete inputs\<close>

text \<open>
  \<open>documents_with get_text t listing\<close> names, in listing order, the \<open>.html\<close> files
  whose word list holds \<open>t\<close>. The lemmas below show that the loop of lines 18 to 28
  builds exactly these posting lists.
\<close>

definition posting :: "(string \<times> string list) list \<Rightarrow> string \<Rightarrow> string list" where
  "posting idx t = (case map_of idx t of None \<Rightarrow> [] | Some docs \<Rightarrow> docs)"

definition is_html :: "string \<times> string \<Rightarrow> bool" where
  "is_html entry = endswith (fst entry) ''.html''"

definition documents_with :: "(string \<Rightarrow> string) \<Rightarrow> string \<Rightarrow> (string \<times> string) list \<Rightarrow> string list" where
  "documents_with get_text t listing =
     map fst (filter (\<lambda>entry. is_html entry \<and> t \<in> set (words_of get_text (snd entry))) listing)"

text \<open>A page without markup: its text is its content. Used for concrete corpora.\<close>

definition plain_text :: "string \<Rightarrow> string" where
  "plain_text content = content"

text \<open>
  What a failed attempt that is not the last leaves in the log: the request, the message
  and the pause of one second.
\<close>

definition failed_round :: "string \<Rightarrow> int \<Rightarrow> event list" where
  "failed_round url attempt = [Get url, Print_attempt_failed attempt url, Sleep 1000]"

text \<open>
  Two environments for concrete runs. \<open>absolute_join\<close> is \<open>urljoin\<close> on a link that
  is itself an absolute URL, which it returns as it is; the concrete pages below hold only
  such links. The network of \<open>flaky_env\<close> fails the first two
  requests of the run, that of \<open>down_env\<close> fails all.
\<close>

definition absolute_join :: "string \<Rightarrow> string \<Rightarrow> py_error + string" where
  "absolute_join base link = Inr link"

definition no_links :: "string \<Rightarrow> string list" where
  "no_links body = []"

definition fails_twice :: "nat \<Rightarrow> string \<Rightarrow> string option" where
  "fails_twice n url = (if n < 2 then None else Some ''<html></html>'')"

definition always_down :: "nat \<Rightarrow> string \<Rightarrow> string option" where
  "always_down n url = None"

definition flaky_env :: env where
  "flaky_env = \<lparr>urlparse = py_urlparse, urljoin = absolute_join, find_hrefs = no_links, http_get = fails_twice\<rparr>"

definition down_env :: env where
  "down_env = \<lparr>urlparse = py_urlparse, urljoin = absolute_join, find_hrefs = no_links, http_get = always_down\<rparr>"

text \<open>
  \<open>state_of\<close> is the state a run ends in, whether it returned or raised.
  \<open>dequeued\<close> and \<open>enqueued\<close> read from a log the URLs popped at line 96 and the URLs
  appended at line 131, in order. A URL is \<open>eligible\<close> when the validator accepts it and
  its host is the seed domain. \<open>crawl_run E MAX_PAGES seed_domain s0 s\<close> says that the loop
  started in \<open>s0\<close> stands at its head in state \<open>s\<close> after some number of passes.
\<close>

definition state_of :: "outcome \<Rightarrow> crawl_state" where
  "state_of out = (case out of Inl (e, s) \<Rightarrow> s | Inr s \<Rightarrow> s)"

fun dequeued :: "event list \<Rightarrow> string list" where
  "dequeued [] = []"
| "dequeued (Dequeue url # evs) = url # dequeued evs"
| "dequeued (ev # evs) = dequeued evs"

fun enqueued :: "event list \<Rightarrow> string list" where
  "enqueued [] = []"
| "enqueued (Enqueue url # evs) = url # enqueued evs"
| "enqueued (ev # evs) = enqueued evs"

definition eligible :: "env \<Rightarrow> string \<Rightarrow> string \<Rightarrow> bool" where
  "eligible E seed_domain url =
     (is_valid_url (urlparse E) url = Inr True
      \<and> (case urlparse E url of Inl e \<Rightarrow> False | Inr parsed \<Rightarrow> netloc parsed = seed_domain))"

inductive crawl_run :: "env \<Rightarrow> int \<Rightarrow> string \<Rightarrow> crawl_state \<Rightarrow> crawl_state \<Rightarrow> bool"
  for E :: env and MAX_PAGES :: int and seed_domain :: string and s0 :: crawl_state where
  start: "crawl_run E MAX_PAGES seed_domain s0 s0"
| pass: "crawl_run E MAX_PAGES seed_domain s0 s \<Longrightarrow> queue s \<noteq> [] \<Longrightarrow>
         int (length (visited s)) < MAX_PAGES \<Longrightarrow> crawl_iter E seed_domain s = Inr s' \<Longrightarrow>
         crawl_run E MAX_PAGES seed_domain s0 s'"

text \<open>The state a call of \<open>crawl\<close> ends in, whether it returned or raised.\<close>

definition crawl_state_of :: "(py_error \<times> crawl_state) + crawl_result \<Rightarrow> crawl_state" where
  "crawl_state_of res = (case res of Inl (e, s) \<Rightarrow> s | Inr r \<Rightarrow> final r)"

text \<open>
  A site of five pages that all answer, each reachable from each: page 1 links to 2 and
  3, page 2 to 4 and 1, page 3 to 5, pages 4 and 5 back to 1. \<open>site5_after_two\<close> is the
  state after two passes of the loop.
\<close>

definition site5_body :: "string \<Rightarrow> string" where
  "site5_body url = ''page '' @ url"

definition site5_get :: "nat \<Rightarrow> string \<Rightarrow> string option" where
  "site5_get n url =
     (if url \<in> set [''http://s/1'', ''http://s/2'', ''http://s/3'', ''http://s/4'', ''http://s/5'']
      then Some (site5_body url) else None)"

definition site5_hrefs :: "string \<Rightarrow> string list" where
  "site5_hrefs body =
     (if body = site5_body ''http://s/1'' then [''http://s/2'', ''http://s/3'']
      else if body = site5_body ''http://s/2'' then [''http://s/4'', ''http://s/1'']
      else if body = site5_body ''http://s/3'' then [''http://s/5'']
      else if body = site5_body ''http://s/4'' then [''http://s/1'']
      else if body = site5_body ''http://s/5'' then [''http://s/1'']
      else [])"

definition site5_env :: env where
  "site5_env = \<lparr>urlparse = py_urlparse, urljoin = absolute_join, find_hrefs = site5_hrefs,
                 http_get = site5_get\<rparr>"

definition site5_after_two :: crawl_state where
  "site5_after_two =
     \<lparr>sent = 2,
      trace = [Dequeue ''http://s/1'', Get ''http://s/1'', Print_saved 1,
               Enqueue ''http://s/2'', Enqueue ''http://s/3'', Sleep 500,
               Dequeue ''http://s/2'', Get ''http://s/2'', Print_saved 2,
               Enqueue ''http://s/4'', Enqueue ''http://s/1'', Sleep 500],
      queue = [''http://s/3'', ''http://s/4'', ''http://s/1''],
      visited = [''http://s/1'', ''http://s/2''], duplicate_urls = 0, page_id = 3,
      pages = [(1, ''page http://s/1''), (2, ''page http://s/2'')]\<rparr>"

text \<open>The five-page site crawled to the end: the state after the last pass.\<close>

definition site5_after_all :: crawl_state where
  "site5_after_all =
     \<lparr>sent = 5,
      trace = [Dequeue ''http://s/1'', Get ''http://s/1'', Print_saved 1,
               Enqueue ''http://s/2'', Enqueue ''http://s/3'', Sleep 500,
               Dequeue ''http://s/2'', Get ''http://s/2'', Print_saved 2,
               Enqueue ''http://s/4'', Enqueue ''http://s/1'', Sleep 500,
               Dequeue ''http://s/3'', Get ''http://s/3'', Print_saved 3,
               Enqueue ''http://s/5'', Sleep 500,
               Dequeue ''http://s/4'', Get ''http://s/4'', Print_saved 4,
               Enqueue ''http://s/1'', Sleep 500,
               Dequeue ''http://s/1'',
               Dequeue ''http://s/5'', Get ''http://s/5'', Print_saved 5,
               Enqueue ''http://s/1'', Sleep 500,
               Dequeue ''http://s/1'', Dequeue ''http://s/1''],
      queue = [],
      visited = [''http://s/1'', ''http://s/2'', ''http://s/3'', ''http://s/4'', ''http://s/5''],
      duplicate_urls = 3, page_id = 6,
      pages = [(1, ''page http://s/1''), (2, ''page http://s/2''), (3, ''page http://s/3''),
               (4, ''page http://s/4''), (5, ''page http://s/5'')]\<rparr>"

text \<open>
  The page of the example: the seed \<open>https://example.com/\<close> answers with a page whose
  anchors are a link to the same host, a link to another host and a mail address.
  \<open>example_after_one\<close> is the state after the one pass that a bound of 1 allows.
\<close>

definition example_get :: "nat \<Rightarrow> string \<Rightarrow> string option" where
  "example_get n url = (if url = ''https://example.com/'' then Some ''three links'' else None)"

definition example_hrefs :: "string \<Rightarrow> string list" where
  "example_hrefs body =
     (if body = ''three links''
      then [''https://example.com/a'', ''https://other.com/b'', ''mailto:x@y.com'']
      else [])"

definition example_env :: env where
  "example_env = \<lparr>urlparse = py_urlparse, urljoin = absolute_join, find_hrefs = example_hrefs,
                   http_get = example_get\<rparr>"

definition example_after_one :: crawl_state where
  "example_after_one =
     \<lparr>sent = 1,
      trace = [Dequeue ''https://example.com/'', Get ''https://example.com/'', Print_saved 1,
               Enqueue ''https://example.com/a'', Sleep 500],
      queue = [''https://example.com/a''],
      visited = [''https://example.com/''], duplicate_urls = 0, page_id = 2,
      pages = [(1, ''three links'')]\<rparr>"

text \<open>
  A seed page that links twice to \<open>http://s/b\<close>. The seed answers at once; \<open>/b\<close>
  fails at requests 1 to 3 of the run and answers from request 4 on.
  \<open>retry_before_skip\<close> is the state after the pass over the seed.
\<close>

definition retry_get :: "nat \<Rightarrow> string \<Rightarrow> string option" where
  "retry_get n url =
     (if url = ''http://s/'' then Some ''two links''
      else if url = ''http://s/b'' \<and> 4 \<le> n then Some ''leaf''
      else None)"

definition retry_hrefs :: "string \<Rightarrow> string list" where
  "retry_hrefs body = (if body = ''two links'' then [''http://s/b'', ''http://s/b''] else [])"

definition retry_env :: env where
  "retry_env = \<lparr>urlparse = py_urlparse, urljoin = absolute_join, find_hrefs = retry_hrefs,
                 http_get = retry_get\<rparr>"

definition retry_before_skip :: crawl_state where
  "retry_before_skip =
     \<lparr>sent = 1,
      trace = [Dequeue ''http://s/'', Get ''http://s/'', Print_saved 1,
               Enqueue ''http://s/b'', Enqueue ''http://s/b'', Sleep 500],
      queue = [''http://s/b'', ''http://s/b''],
      visited = [''http://s/''], duplicate_urls = 0, page_id = 2,
      pages = [(1, ''two links'')]\<rparr>"

section \<open>Properties of the indexer\<close>

lemma map_of_add_posting:
  "map_of (add_posting w f idx) t = (if t = w then Some (posting idx w @ [f]) else map_of idx t)"
  by (induction idx) (auto simp: posting_def)

lemma keys_add_posting:
  "fst ` set (add_posting w f idx) = insert w (fst ` set idx)"
proof (induction idx)
  case Nil
  show ?case by simp
next
  case (Cons a idx)
  obtain k docs where a: "a = (k, docs)" by (cases a)
  show ?case
  proof (cases "k = w")
    case True
    then show ?thesis by (simp add: a)
  next
    case False
    then show ?thesis using Cons.IH by (simp add: a insert_commute)
  qed
qed

lemma distinct_add_posting:
  "distinct (map fst idx) \<Longrightarrow> distinct (map fst (add_posting w f idx))"
proof (induction idx)
  case Nil
  then show ?case by simp
next
  case (Cons a idx)
  obtain k docs where a: "a = (k, docs)" by (cases a)
  have "fst ` set (add_posting w f idx) = insert w (fst ` set idx)"
    by (rule keys_add_posting)
  with Cons a show ?case by auto
qed

lemma map_of_fold_add_posting:
  "distinct ws \<Longrightarrow>
   map_of (fold (\<lambda>word. add_posting word f) ws idx) t =
     (if t \<in> set ws then Some (posting idx t @ [f]) else map_of idx t)"
proof (induction ws arbitrary: idx)
  case Nil
  then show ?case by simp
next
  case (Cons w ws)
  then show ?case
    by (auto simp: map_of_add_posting posting_def)
qed

lemma distinct_fold_add_posting:
  "distinct (map fst idx) \<Longrightarrow> distinct (map fst (fold (\<lambda>word. add_posting word f) ws idx))"
  by (induction ws arbitrary: idx) (auto simp: distinct_add_posting)

lemma map_of_fold_index_file:
  "map_of (inverted_index (fold (index_file gt) listing st)) t =
     (if documents_with gt t listing = [] then map_of (inverted_index st) t
      else Some (posting (inverted_index st) t @ documents_with gt t listing))"
proof (induction listing arbitrary: st)
  case Nil
  then show ?case by (simp add: documents_with_def)
next
  case (Cons e listing)
  obtain f c where e: "e = (f, c)" by (cases e)
  show ?case
    unfolding fold_simps Cons.IH
    by (auto simp: e index_file_def documents_with_def is_html_def posting_def map_of_fold_add_posting)
qed

lemma doc_count_fold_index_file:
  "doc_count (fold (index_file gt) listing st) = doc_count st + length (filter is_html listing)"
  by (induction listing arbitrary: st) (auto simp: index_file_def is_html_def split: prod.splits)

lemma distinct_fold_index_file:
  "distinct (map fst (inverted_index st)) \<Longrightarrow>
   distinct (map fst (inverted_index (fold (index_file gt) listing st)))"
  by (induction listing arbitrary: st)
     (auto simp: index_file_def distinct_fold_add_posting split: prod.splits)

lemma map_of_read_pages:
  "map_of (inverted_index (read_pages gt listing)) t =
     (if documents_with gt t listing = [] then None else Some (documents_with gt t listing))"
  by (simp add: read_pages_def map_of_fold_index_file posting_def)

lemma doc_count_read_pages:
  "doc_count (read_pages gt listing) = length (filter is_html listing)"
  by (simp add: read_pages_def doc_count_fold_index_file)

lemma distinct_read_pages:
  "distinct (map fst (inverted_index (read_pages gt listing)))"
  by (simp add: read_pages_def distinct_fold_index_file)

lemma length_documents_with:
  "length (documents_with gt t listing) \<le> length (filter is_html listing)"
proof -
  have "filter (\<lambda>entry. is_html entry \<and> t \<in> set (words_of gt (snd entry))) listing
        = filter (\<lambda>entry. t \<in> set (words_of gt (snd entry))) (filter is_html listing)"
    by (simp add: conj_commute)
  then have "length (documents_with gt t listing)
        = length (filter (\<lambda>entry. t \<in> set (words_of gt (snd entry))) (filter is_html listing))"
    unfolding documents_with_def length_map by (rule arg_cong)
  also have "\<dots> \<le> length (filter is_html listing)"
    by (rule length_filter_le)
  finally show ?thesis .
qed

lemma map_of_dict_set:
  "map_of (dict_set k v d) t = (if t = k then Some v else map_of d t)"
  by (induction d) auto

lemma compute_idf_ok:
  assumes "0 < n" and "distinct (map fst idx)" and "\<forall>e \<in> set idx. snd e \<noteq> []"
  shows "\<exists>idf. compute_idf n idx acc = Inr idf \<and>
           (\<forall>t. map_of idf t =
              (case map_of idx t of
                 Some docs \<Rightarrow> Some (ln (real n / real (length docs)))
               | None \<Rightarrow> map_of acc t))"
  using assms(2,3)
proof (induction idx arbitrary: acc)
  case Nil
  then show ?case by simp
next
  case (Cons e idx)
  obtain w docs where e: "e = (w, docs)" by (cases e)
  from Cons.prems e have nz: "docs \<noteq> []" and fresh: "w \<notin> fst ` set idx"
    and d: "distinct (map fst idx)" and ne: "\<forall>e \<in> set idx. snd e \<noteq> []"
    by auto
  have pos: "0 < real n / real (length docs)"
    using assms(1) nz by simp
  from Cons.IH [OF d ne, of "dict_set w (ln (real n / real (length docs))) acc"]
  obtain idf where run: "compute_idf n idx (dict_set w (ln (real n / real (length docs))) acc) = Inr idf"
    and look: "\<forall>t. map_of idf t =
              (case map_of idx t of
                 Some docs \<Rightarrow> Some (ln (real n / real (length docs)))
               | None \<Rightarrow> map_of (dict_set w (ln (real n / real (length docs))) acc) t)"
    by blast
  have none: "map_of idx w = None"
    using fresh by (simp add: map_of_eq_None_iff)
  have "compute_idf n (e # idx) acc = Inr idf"
    using run nz pos by (simp add: e true_div_def math_log_def)
  moreover have "\<forall>t. map_of idf t =
              (case map_of (e # idx) t of
                 Some docs \<Rightarrow> Some (ln (real n / real (length docs)))
               | None \<Rightarrow> map_of acc t)"
    using look none by (auto simp: e map_of_dict_set split: option.splits)
  ultimately show ?case by blast
qed

lemma read_pages_entries:
  assumes "e \<in> set (inverted_index (read_pages gt listing))"
  shows "snd e = documents_with gt (fst e) listing \<and> documents_with gt (fst e) listing \<noteq> []"
proof -
  have "map_of (inverted_index (read_pages gt listing)) (fst e) = Some (snd e)"
    using assms distinct_read_pages [of gt listing] by simp
  then show ?thesis
    by (simp add: map_of_read_pages split: if_splits)
qed

lemma indexer_run:
  "\<exists>idf. milestone3_indexer gt (Some listing) =
            Inr \<lparr>inverted_index_json = inverted_index (read_pages gt listing), idf_json = idf,
                 documents_indexed = length (filter is_html listing)\<rparr>
         \<and> (\<forall>t. map_of idf t =
               (if documents_with gt t listing = [] then None
                else Some (ln (real (length (filter is_html listing))
                               / real (length (documents_with gt t listing))))))"
proof (cases "inverted_index (read_pages gt listing) = []")
  case True
  then have "\<forall>t. documents_with gt t listing = []"
    using map_of_read_pages [of gt listing] by (metis map_of.simps(1) option.distinct(1))
  with True show ?thesis
    by (simp add: milestone3_indexer_def doc_count_read_pages)
next
  case False
  then obtain e where e: "e \<in> set (inverted_index (read_pages gt listing))"
    by (cases "inverted_index (read_pages gt listing)") auto
  have "documents_with gt (fst e) listing \<noteq> []"
    using read_pages_entries [OF e] by simp
  then have "0 < length (documents_with gt (fst e) listing)"
    by simp
  also have "\<dots> \<le> length (filter is_html listing)"
    by (rule length_documents_with)
  finally have pos: "0 < doc_count (read_pages gt listing)"
    by (simp add: doc_count_read_pages)
  have ne: "\<forall>e \<in> set (inverted_index (read_pages gt listing)). snd e \<noteq> []"
    using read_pages_entries [of _ gt listing] by auto
  from compute_idf_ok [OF pos distinct_read_pages ne, where acc = "[]"]
  obtain idf where run: "compute_idf (doc_count (read_pages gt listing)) (inverted_index (read_pages gt listing)) [] = Inr idf"
    and look: "\<forall>t. map_of idf t =
              (case map_of (inverted_index (read_pages gt listing)) t of
                 Some docs \<Rightarrow> Some (ln (real (doc_count (read_pages gt listing)) / real (length docs)))
               | None \<Rightarrow> map_of [] t)"
    by blast
  have "milestone3_indexer gt (Some listing) =
            Inr \<lparr>inverted_index_json = inverted_index (read_pages gt listing), idf_json = idf,
                 documents_indexed = length (filter is_html listing)\<rparr>"
    using run by (simp add: milestone3_indexer_def doc_count_read_pages)
  moreover have "\<forall>t. map_of idf t =
               (if documents_with gt t listing = [] then None
                else Some (ln (real (length (filter is_html listing))
                               / real (length (documents_with gt t listing)))))"
    using look by (simp add: map_of_read_pages doc_count_read_pages)
  ultimately show ?thesis by blast
qed

text \<open>
  C1. The run over an existing pages folder always completes; \<open>documents_indexed\<close> is
  the number of \<open>.html\<close> files processed; every term of the inverted index gets the
  score \<open>ln (documents_indexed / length of its posting list)\<close> and no other term gets
  a score. Over two documents, a term in both gets 0 and a term in exactly one gets
  \<open>ln 2\<close>.
\<close>

theorem idf_is_log_of_document_ratio:
  "\<exists>out. milestone3_indexer gt (Some listing) = Inr out
     \<and> documents_indexed out = length (filter is_html listing)
     \<and> (\<forall>t docs. map_of (inverted_index_json out) t = Some docs \<longrightarrow>
           map_of (idf_json out) t = Some (ln (real (documents_indexed out) / real (length docs))))
     \<and> (\<forall>t. map_of (inverted_index_json out) t = None \<longrightarrow> map_of (idf_json out) t = None)
     \<and> (\<forall>d1 d2 t. listing = [d1, d2] \<and> is_html d1 \<and> is_html d2 \<longrightarrow>
           (t \<in> set (words_of gt (snd d1)) \<and> t \<in> set (words_of gt (snd d2)) \<longrightarrow>
              map_of (idf_json out) t = Some 0)
         \<and> ((t \<in> set (words_of gt (snd d1))) \<noteq> (t \<in> set (words_of gt (snd d2))) \<longrightarrow>
              map_of (idf_json out) t = Some (ln 2)))"
proof -
  from indexer_run [of gt listing]
  obtain idf where run: "milestone3_indexer gt (Some listing) =
            Inr \<lparr>inverted_index_json = inverted_index (read_pages gt listing), idf_json = idf,
                 documents_indexed = length (filter is_html listing)\<rparr>"
    and look: "\<And>t. map_of idf t =
               (if documents_with gt t listing = [] then None
                else Some (ln (real (length (filter is_html listing))
                               / real (length (documents_with gt t listing)))))"
    by blast
  let ?out = "\<lparr>inverted_index_json = inverted_index (read_pages gt listing), idf_json = idf,
                 documents_indexed = length (filter is_html listing)\<rparr>"
  have a: "documents_indexed ?out = length (filter is_html listing)"
    by simp
  have b: "\<forall>t docs. map_of (inverted_index_json ?out) t = Some docs \<longrightarrow>
           map_of (idf_json ?out) t = Some (ln (real (documents_indexed ?out) / real (length docs)))"
    by (auto simp: look map_of_read_pages split: if_splits)
  have c: "\<forall>t. map_of (inverted_index_json ?out) t = None \<longrightarrow> map_of (idf_json ?out) t = None"
    by (auto simp: look map_of_read_pages split: if_splits)
  have d: "\<forall>d1 d2 t. listing = [d1, d2] \<and> is_html d1 \<and> is_html d2 \<longrightarrow>
           (t \<in> set (words_of gt (snd d1)) \<and> t \<in> set (words_of gt (snd d2)) \<longrightarrow>
              map_of (idf_json ?out) t = Some 0)
         \<and> ((t \<in> set (words_of gt (snd d1))) \<noteq> (t \<in> set (words_of gt (snd d2))) \<longrightarrow>
              map_of (idf_json ?out) t = Some (ln 2))"
    by (auto simp: look documents_with_def)
  from run a b c d show ?thesis by blast
qed

text \<open>The corpus of the example: "cat" in both pages, "dog" in the first only.\<close>

theorem idf_is_log_of_document_ratio_witness:
  "\<exists>out. milestone3_indexer (\<lambda>text. text)
            (Some [(''page_1.html'', ''The cat and the dog''), (''page_2.html'', ''a Cat'')]) = Inr out
     \<and> documents_indexed out = 2
     \<and> map_of (idf_json out) ''cat'' = Some 0
     \<and> map_of (idf_json out) ''dog'' = Some (ln 2)"
proof -
  let ?d1 = "(''page_1.html'', ''The cat and the dog'')"
  let ?d2 = "(''page_2.html'', ''a Cat'')"
  have h1: "is_html ?d1" and h2: "is_html ?d2"
    by (simp_all add: is_html_def endswith_def)
  have w1: "words_of (\<lambda>text. text) (snd ?d1) = [''the'', ''cat'', ''and'', ''the'', ''dog'']"
    by code_simp
  have w2: "words_of (\<lambda>text. text) (snd ?d2) = [''a'', ''cat'']"
    by code_simp
  from idf_is_log_of_document_ratio [of "\<lambda>text. text" "[?d1, ?d2]"]
  obtain out where run: "milestone3_indexer (\<lambda>text. text) (Some [?d1, ?d2]) = Inr out"
    and n: "documents_indexed out = length (filter is_html [?d1, ?d2])"
    and ex: "\<forall>d1 d2 t. [?d1, ?d2] = [d1, d2] \<and> is_html d1 \<and> is_html d2 \<longrightarrow>
           (t \<in> set (words_of (\<lambda>text. text) (snd d1)) \<and> t \<in> set (words_of (\<lambda>text. text) (snd d2)) \<longrightarrow>
              map_of (idf_json out) t = Some 0)
         \<and> ((t \<in> set (words_of (\<lambda>text. text) (snd d1))) \<noteq> (t \<in> set (words_of (\<lambda>text. text) (snd d2))) \<longrightarrow>
              map_of (idf_json out) t = Some (ln 2))"
    by blast
  from ex h1 h2 have cat: "''cat'' \<in> set (words_of (\<lambda>text. text) (snd ?d1)) \<and> ''cat'' \<in> set (words_of (\<lambda>text. text) (snd ?d2)) \<longrightarrow>
              map_of (idf_json out) ''cat'' = Some 0"
    and dog: "(''dog'' \<in> set (words_of (\<lambda>text. text) (snd ?d1))) \<noteq> (''dog'' \<in> set (words_of (\<lambda>text. text) (snd ?d2))) \<longrightarrow>
              map_of (idf_json out) ''dog'' = Some (ln 2)"
    by blast+
  have "map_of (idf_json out) ''cat'' = Some 0"
    using cat unfolding w1 w2 by simp
  moreover have "map_of (idf_json out) ''dog'' = Some (ln 2)"
    using dog unfolding w1 w2 by simp
  moreover have "documents_indexed out = 2"
    using n h1 h2 by simp
  ultimately show ?thesis using run by blast
qed

lemma index_file_adds_at_most_one:
  "length (posting (inverted_index (index_file gt e st)) t) \<le> Suc (length (posting (inverted_index st) t))"
proof (cases e)
  case (Pair f c)
  have "map_of (fold (\<lambda>word. add_posting word f) (remdups (words_of gt c)) (inverted_index st)) t
        = (if t \<in> set (words_of gt c) then Some (posting (inverted_index st) t @ [f])
           else map_of (inverted_index st) t)"
    using map_of_fold_add_posting [of "remdups (words_of gt c)" f "inverted_index st" t] by simp
  then show ?thesis
    by (simp add: Pair index_file_def posting_def)
qed

text \<open>
  C9. Indexing one file lengthens any term's posting list by at most one entry. After a
  completed build the posting list of a term is the list of the \<open>.html\<close> files whose
  words hold it, each once (without repetition when the file names differ), so it is no
  longer than the document count, and every score of the IDF table is at least 0.
\<close>

theorem one_posting_per_document_and_idf_nonneg:
  assumes "milestone3_indexer gt (Some listing) = Inr out"
  shows "(\<forall>e st t. length (posting (inverted_index (index_file gt e st)) t)
                     \<le> Suc (length (posting (inverted_index st) t)))
       \<and> (\<forall>t docs. map_of (inverted_index_json out) t = Some docs \<longrightarrow>
             docs = documents_with gt t listing
           \<and> (distinct (map fst listing) \<longrightarrow> distinct docs)
           \<and> length docs \<le> documents_indexed out)
       \<and> (\<forall>t x. map_of (idf_json out) t = Some x \<longrightarrow> 0 \<le> x)"
proof -
  from indexer_run [of gt listing] assms
  obtain idf where out: "out = \<lparr>inverted_index_json = inverted_index (read_pages gt listing), idf_json = idf,
                 documents_indexed = length (filter is_html listing)\<rparr>"
    and look: "\<And>t. map_of idf t =
               (if documents_with gt t listing = [] then None
                else Some (ln (real (length (filter is_html listing))
                               / real (length (documents_with gt t listing)))))"
    by auto
  have a: "\<forall>e st t. length (posting (inverted_index (index_file gt e st)) t)
                     \<le> Suc (length (posting (inverted_index st) t))"
    using index_file_adds_at_most_one by blast
  have b: "\<forall>t docs. map_of (inverted_index_json out) t = Some docs \<longrightarrow>
             docs = documents_with gt t listing
           \<and> (distinct (map fst listing) \<longrightarrow> distinct docs)
           \<and> length docs \<le> documents_indexed out"
  proof (intro allI impI)
    fix t docs
    assume "map_of (inverted_index_json out) t = Some docs"
    then have d: "docs = documents_with gt t listing"
      by (simp add: out map_of_read_pages split: if_splits)
    have "distinct (map fst listing) \<longrightarrow> distinct (documents_with gt t listing)"
      by (simp add: documents_with_def distinct_map_filter)
    moreover have "length (documents_with gt t listing) \<le> documents_indexed out"
      using length_documents_with [of gt t listing] by (simp add: out)
    ultimately show "docs = documents_with gt t listing
           \<and> (distinct (map fst listing) \<longrightarrow> distinct docs)
           \<and> length docs \<le> documents_indexed out"
      using d by simp
  qed
  have c: "\<forall>t x. map_of (idf_json out) t = Some x \<longrightarrow> 0 \<le> x"
  proof (intro allI impI)
    fix t x
    assume "map_of (idf_json out) t = Some x"
    then have ne: "documents_with gt t listing \<noteq> []"
      and x: "x = ln (real (length (filter is_html listing)) / real (length (documents_with gt t listing)))"
      by (auto simp: out look split: if_splits)
    have "0 < length (documents_with gt t listing)"
      using ne by simp
    moreover have "length (documents_with gt t listing) \<le> length (filter is_html listing)"
      by (rule length_documents_with)
    ultimately have "1 \<le> real (length (filter is_html listing)) / real (length (documents_with gt t listing))"
      by (simp add: le_divide_eq)
    then show "0 \<le> x"
      unfolding x by (rule ln_ge_zero)
  qed
  from a b c show ?thesis by blast
qed

text \<open>A page that repeats "cat" three times is listed once for it.\<close>

theorem one_posting_per_document_and_idf_nonneg_witness:
  "\<exists>out x. milestone3_indexer plain_text
            (Some [(''page_1.html'', ''cat cat CAT dog''), (''page_2.html'', ''cat'')]) = Inr out
     \<and> map_of (inverted_index_json out) ''cat'' = Some [''page_1.html'', ''page_2.html'']
     \<and> length [''page_1.html'', ''page_2.html''] \<le> documents_indexed out
     \<and> map_of (idf_json out) ''dog'' = Some x \<and> 0 \<le> x"
proof -
  let ?L = "[(''page_1.html'', ''cat cat CAT dog''), (''page_2.html'', ''cat'')]"
  from indexer_run [of plain_text ?L]
  obtain out where run: "milestone3_indexer plain_text (Some ?L) = Inr out"
    and idx: "inverted_index_json out = inverted_index (read_pages plain_text ?L)"
    and look: "map_of (idf_json out) ''dog'' =
               (if documents_with plain_text ''dog'' ?L = [] then None
                else Some (ln (real (length (filter is_html ?L))
                               / real (length (documents_with plain_text ''dog'' ?L)))))"
    by force
  have "inverted_index (read_pages plain_text ?L)
        = [(''cat'', [''page_1.html'', ''page_2.html'']), (''dog'', [''page_1.html''])]"
    by code_simp
  then have cat: "map_of (inverted_index_json out) ''cat'' = Some [''page_1.html'', ''page_2.html'']"
    by (simp add: idx)
  have "documents_with plain_text ''dog'' ?L = [''page_1.html'']"
    by code_simp
  with look obtain x where dog: "map_of (idf_json out) ''dog'' = Some x"
    by simp
  from one_posting_per_document_and_idf_nonneg [OF run] cat run dog
  show ?thesis by blast
qed

text \<open>
  C2, as stated, fails: over an existing but empty pages folder the run raises nothing and
  completes with an empty inverted index, an empty IDF table and a count of 0.
\<close>

theorem empty_corpus_is_an_error_counterexample:
  "milestone3_indexer plain_text (Some []) =
     Inr \<lparr>inverted_index_json = [], idf_json = [], documents_indexed = 0\<rparr>"
  by (simp add: milestone3_indexer_def read_pages_def)

lemma fold_index_file_no_html:
  "\<forall>e \<in> set listing. \<not> is_html e \<Longrightarrow> fold (index_file gt) listing st = st"
  by (induction listing arbitrary: st) (auto simp: index_file_def is_html_def)

text \<open>
  C2, amended. When the pages folder exists and holds no \<open>.html\<close> file, the run
  completes without an error: both artifacts are written empty and the document count is
  0. No score is computed, so none is NaN or infinite.
\<close>

theorem no_documents_completes_with_empty_tables:
  assumes "\<forall>e \<in> set listing. \<not> is_html e"
  shows "milestone3_indexer gt (Some listing) =
     Inr \<lparr>inverted_index_json = [], idf_json = [], documents_indexed = 0\<rparr>"
  using fold_index_file_no_html [OF assms]
  by (simp add: milestone3_indexer_def read_pages_def)

text \<open>A folder that holds a text file only.\<close>

theorem no_documents_completes_with_empty_tables_witness:
  "\<not> is_html (''notes.txt'', ''cat dog'')
   \<and> milestone3_indexer plain_text (Some [(''notes.txt'', ''cat dog'')]) =
       Inr \<lparr>inverted_index_json = [], idf_json = [], documents_indexed = 0\<rparr>"
proof -
  have h: "\<not> is_html (''notes.txt'', ''cat dog'')"
    by (simp add: is_html_def endswith_def)
  then have "\<forall>e \<in> set [(''notes.txt'', ''cat dog'')]. \<not> is_html e"
    by simp
  from h no_documents_completes_with_empty_tables [OF this, of plain_text]
  show ?thesis by blast
qed

section \<open>Properties of the crawler\<close>

subsection \<open>The URL validator\<close>

text \<open>
  C4, as stated, fails in its last part: on \<open>http://[\<close> the input is not empty and has
  no filtered prefix, \<open>urlparse\<close> raises \<open>ValueError\<close> for the unclosed bracket, and
  \<open>is_valid_url\<close> does not catch it.
\<close>

theorem is_valid_url_never_raises_counterexample:
  "is_valid_url py_urlparse ''http://['' = Inl ValueError"
  by code_simp

lemma py_urlparse_empty: "py_urlparse [] = Inr \<lparr>scheme = [], netloc = []\<rparr>"
  by (simp add: py_urlparse_def split_scheme_def)

lemma no_bad_prefix_of_empty: "\<not> list_ex (startswith []) bad_prefixes"
  by (simp add: bad_prefixes_def startswith_def)

text \<open>
  C4, amended. The validator returns \<open>False\<close> for the empty string and whenever the
  trimmed, lowercased input starts with \<open>mailto:\<close>, \<open>javascript:\<close>, \<open>tel:\<close> or
  \<open>#\<close>. Otherwise it hands the trimmed, lowercased input to \<open>urlparse\<close>: when that
  returns, the answer is \<open>True\<close> exactly for the schemes \<open>http\<close> and \<open>https\<close>;
  when that raises, the exception leaves the validator. A blank input is answered
  \<open>False\<close>.
\<close>

theorem is_valid_url_result:
  "(url = [] \<longrightarrow> is_valid_url parse url = Inr False)
   \<and> (list_ex (startswith (lower (strip url))) bad_prefixes \<longrightarrow> is_valid_url parse url = Inr False)
   \<and> (url \<noteq> [] \<and> \<not> list_ex (startswith (lower (strip url))) bad_prefixes \<longrightarrow>
        (\<forall>parsed. parse (lower (strip url)) = Inr parsed \<longrightarrow>
           is_valid_url parse url = Inr (scheme parsed = ''http'' \<or> scheme parsed = ''https''))
      \<and> (\<forall>e. parse (lower (strip url)) = Inl e \<longrightarrow> is_valid_url parse url = Inl e))
   \<and> (strip url = [] \<longrightarrow> is_valid_url py_urlparse url = Inr False)"
proof -
  have a: "url = [] \<longrightarrow> is_valid_url parse url = Inr False"
    by (simp add: is_valid_url_def)
  have b: "list_ex (startswith (lower (strip url))) bad_prefixes \<longrightarrow> is_valid_url parse url = Inr False"
    by (simp add: is_valid_url_def Let_def)
  have c: "url \<noteq> [] \<and> \<not> list_ex (startswith (lower (strip url))) bad_prefixes \<longrightarrow>
        (\<forall>parsed. parse (lower (strip url)) = Inr parsed \<longrightarrow>
           is_valid_url parse url = Inr (scheme parsed = ''http'' \<or> scheme parsed = ''https''))
      \<and> (\<forall>e. parse (lower (strip url)) = Inl e \<longrightarrow> is_valid_url parse url = Inl e)"
    by (simp add: is_valid_url_def Let_def)
  have d: "strip url = [] \<longrightarrow> is_valid_url py_urlparse url = Inr False"
    using no_bad_prefix_of_empty
    by (simp add: is_valid_url_def Let_def lower_def py_urlparse_empty)
  from a b c d show ?thesis by blast
qed

text \<open>
  Filtered prefixes in mixed case and with spaces around, a blank, an accepted and a
  refused scheme, and a URL on which the parser raises.
\<close>

theorem is_valid_url_result_witness:
  "is_valid_url py_urlparse [] = Inr False
   \<and> is_valid_url py_urlparse ''  MAILTO:x@y.com '' = Inr False
   \<and> is_valid_url py_urlparse '' JavaScript:void(0)'' = Inr False
   \<and> is_valid_url py_urlparse ''#Top'' = Inr False
   \<and> is_valid_url py_urlparse ''   '' = Inr False
   \<and> is_valid_url py_urlparse '' HTTPS://Example.com/A '' = Inr True
   \<and> is_valid_url py_urlparse ''ftp://example.com/a'' = Inr False
   \<and> is_valid_url py_urlparse ''HTTP://['' = Inl ValueError"
proof -
  have l7: "lower (strip ''HTTP://['') = ''http://[''"
    by code_simp
  have p7: "py_urlparse ''http://['' = Inl ValueError"
    by code_simp
  have b7: "''HTTP://['' \<noteq> [] \<and> \<not> list_ex (startswith ''http://['') bad_prefixes"
    by (simp add: bad_prefixes_def startswith_def)
  have l1: "lower (strip ''  MAILTO:x@y.com '') = ''mailto:x@y.com''"
    and l2: "lower (strip '' JavaScript:void(0)'') = ''javascript:void(0)''"
    and l3: "lower (strip ''#Top'') = ''#top''"
    and l4: "strip ''   '' = []"
    and l5: "lower (strip '' HTTPS://Example.com/A '') = ''https://example.com/a''"
    and l6: "lower (strip ''ftp://example.com/a'') = ''ftp://example.com/a''"
    by code_simp+
  have p5: "py_urlparse ''https://example.com/a'' = Inr \<lparr>scheme = ''https'', netloc = ''example.com''\<rparr>"
    and p6: "py_urlparse ''ftp://example.com/a'' = Inr \<lparr>scheme = ''ftp'', netloc = ''example.com''\<rparr>"
    by code_simp+
  have b1: "list_ex (startswith ''mailto:x@y.com'') bad_prefixes"
    and b2: "list_ex (startswith ''javascript:void(0)'') bad_prefixes"
    and b3: "list_ex (startswith ''#top'') bad_prefixes"
    and b5: "\<not> list_ex (startswith ''https://example.com/a'') bad_prefixes"
    and b6: "\<not> list_ex (startswith ''ftp://example.com/a'') bad_prefixes"
    by (simp_all add: bad_prefixes_def startswith_def)
  have "is_valid_url py_urlparse [] = Inr False"
    using is_valid_url_result [of "[]" py_urlparse] by simp
  moreover have "is_valid_url py_urlparse ''  MAILTO:x@y.com '' = Inr False"
    using is_valid_url_result [of "''  MAILTO:x@y.com ''" py_urlparse] b1 unfolding l1 by blast
  moreover have "is_valid_url py_urlparse '' JavaScript:void(0)'' = Inr False"
    using is_valid_url_result [of "'' JavaScript:void(0)''" py_urlparse] b2 unfolding l2 by blast
  moreover have "is_valid_url py_urlparse ''#Top'' = Inr False"
    using is_valid_url_result [of "''#Top''" py_urlparse] b3 unfolding l3 by blast
  moreover have "is_valid_url py_urlparse ''   '' = Inr False"
    using is_valid_url_result [of "''   ''" py_urlparse] l4 by blast
  moreover have "is_valid_url py_urlparse '' HTTPS://Example.com/A '' = Inr True"
    using is_valid_url_result [of "'' HTTPS://Example.com/A ''" py_urlparse] b5 p5 unfolding l5 by simp
  moreover have "is_valid_url py_urlparse ''ftp://example.com/a'' = Inr False"
    using is_valid_url_result [of "''ftp://example.com/a''" py_urlparse] b6 p6 unfolding l6 by simp
  moreover have "is_valid_url py_urlparse ''HTTP://['' = Inl ValueError"
    using is_valid_url_result [of "''HTTP://[''" py_urlparse] b7 p7 unfolding l7 by blast
  ultimately show ?thesis by blast
qed

subsection \<open>The fetcher\<close>

lemma retry_loop_success_after:
  assumes "\<forall>j<k. http_get E (sent w + j) url = None"
    and "http_get E (sent w + k) url = Some body"
    and "a + int k \<le> retries"
  shows "retry_loop E url retries [a..retries] w =
           (Some body, w\<lparr>sent := sent w + Suc k,
                          trace := trace w @ concat (map (failed_round url) [a..a + int k - 1]) @ [Get url]\<rparr>)"
  using assms
proof (induction k arbitrary: a w)
  case 0
  then have "[a..retries] = a # [a + 1..retries]"
    by (simp add: upto_rec1)
  with 0 show ?case by simp
next
  case (Suc k)
  have l: "[a..retries] = a # [a + 1..retries]"
    using Suc.prems(3) by (simp add: upto_rec1)
  have f0: "http_get E (sent w) url = None"
    using Suc.prems(1) by force
  let ?w = "w\<lparr>sent := sent w + 1, trace := trace w @ failed_round url a\<rparr>"
  have h1: "\<forall>j<k. http_get E (sent ?w + j) url = None"
    using Suc.prems(1) by (auto dest: spec [where x = "Suc j" for j])
  have h2: "http_get E (sent ?w + k) url = Some body"
    using Suc.prems(2) by simp
  have h3: "a + 1 + int k \<le> retries"
    using Suc.prems(3) by simp
  have u: "[a..a + int k] = a # [a + 1..a + int k]"
    by (simp add: upto_rec1)
  have "retry_loop E url retries [a..retries] w = retry_loop E url retries [a + 1..retries] ?w"
    using f0 Suc.prems(3) by (simp add: l failed_round_def)
  also have "\<dots> = (Some body, ?w\<lparr>sent := sent ?w + Suc k,
                          trace := trace ?w @ concat (map (failed_round url) [a + 1..a + 1 + int k - 1]) @ [Get url]\<rparr>)"
    by (rule Suc.IH [OF h1 h2 h3])
  finally show ?case
    by (simp add: u)
qed

lemma retry_loop_all_fail:
  assumes "\<forall>j<Suc k. http_get E (sent w + j) url = None"
    and "a + int k = retries"
  shows "retry_loop E url retries [a..retries] w =
           (None, w\<lparr>sent := sent w + Suc k,
                     trace := trace w @ concat (map (failed_round url) [a..retries - 1])
                                @ [Get url, Print_attempt_failed retries url]\<rparr>)"
  using assms
proof (induction k arbitrary: a w)
  case 0
  then have "[a..retries] = [a]" and "[a..retries - 1] = []"
    by (simp_all add: upto_rec1)
  with 0 show ?case by simp
next
  case (Suc k)
  have l: "[a..retries] = a # [a + 1..retries]"
    using Suc.prems(2) by (simp add: upto_rec1)
  have f0: "http_get E (sent w) url = None"
    using Suc.prems(1) by force
  let ?w = "w\<lparr>sent := sent w + 1, trace := trace w @ failed_round url a\<rparr>"
  have h1: "\<forall>j<Suc k. http_get E (sent ?w + j) url = None"
    using Suc.prems(1) by (auto dest: spec [where x = "Suc j" for j])
  have h3: "a + 1 + int k = retries"
    using Suc.prems(2) by simp
  have u: "[a..retries - 1] = a # [a + 1..retries - 1]"
    using Suc.prems(2) by (simp add: upto_rec1)
  have "retry_loop E url retries [a..retries] w = retry_loop E url retries [a + 1..retries] ?w"
    using f0 Suc.prems(2) by (simp add: l failed_round_def)
  also have "\<dots> = (None, ?w\<lparr>sent := sent ?w + Suc k,
                     trace := trace ?w @ concat (map (failed_round url) [a + 1..retries - 1])
                                @ [Get url, Print_attempt_failed retries url]\<rparr>)"
    by (rule Suc.IH [OF h1 h3])
  finally show ?case
    by (simp add: u)
qed

lemma retry_loop_bound:
  "retry_loop E url retries as w = (r, w') \<Longrightarrow>
     \<exists>evs. trace w' = trace w @ evs \<and> count_list evs (Get url) = sent w' - sent w
           \<and> sent w \<le> sent w' \<and> sent w' - sent w \<le> length as"
proof (induction as arbitrary: w)
  case Nil
  then show ?case by simp
next
  case (Cons a as)
  show ?case
  proof (cases "http_get E (sent w) url")
    case (Some body)
    with Cons.prems show ?thesis by auto
  next
    case None
    show ?thesis
    proof (cases "a = retries")
      case True
      with None Cons.prems show ?thesis by auto
    next
      case False
      let ?w = "w\<lparr>sent := sent w + 1, trace := trace w @ failed_round url a\<rparr>"
      from None False Cons.prems have "retry_loop E url retries as ?w = (r, w')"
        by (simp add: failed_round_def)
      from Cons.IH [OF this]
      obtain evs where "trace w' = trace ?w @ evs" "count_list evs (Get url) = sent w' - sent ?w"
        "sent ?w \<le> sent w'" "sent w' - sent ?w \<le> length as"
        by blast
      then have "trace w' = trace w @ (failed_round url a @ evs)
             \<and> count_list (failed_round url a @ evs) (Get url) = sent w' - sent w
             \<and> sent w \<le> sent w' \<and> sent w' - sent w \<le> length (a # as)"
        by (auto simp: failed_round_def)
      then show ?thesis by blast
    qed
  qed
qed

text \<open>
  C5. A call makes at most \<open>retries\<close> requests. If the first success comes after
  \<open>k < retries\<close> failures, the call returns that response at once: the log holds \<open>k\<close>
  failed rounds, each ending in a pause of 1000 ms, then the successful request and
  nothing more. If all \<open>retries\<close> requests fail, the call returns \<open>None\<close>: the log
  holds \<open>retries - 1\<close> failed rounds with their pauses, then the last request and its
  message, with no pause after it. For \<open>retries < 1\<close> it returns \<open>None\<close> at once. The
  result is a value in every case.
\<close>

theorem fetch_with_retry_attempts_and_backoff:
  "(\<forall>r w'. fetch_with_retry E url retries w = (r, w') \<longrightarrow>
      (\<exists>evs. trace w' = trace w @ evs \<and> count_list evs (Get url) = sent w' - sent w
             \<and> sent w' - sent w \<le> nat retries))
   \<and> (\<forall>k body. int k < retries \<and> (\<forall>j<k. http_get E (sent w + j) url = None)
                 \<and> http_get E (sent w + k) url = Some body \<longrightarrow>
        fetch_with_retry E url retries w =
          (Some body, w\<lparr>sent := sent w + Suc k,
                         trace := trace w @ concat (map (failed_round url) [1..int k]) @ [Get url]\<rparr>))
   \<and> (0 < retries \<and> (\<forall>j<nat retries. http_get E (sent w + j) url = None) \<longrightarrow>
        fetch_with_retry E url retries w =
          (None, w\<lparr>sent := sent w + nat retries,
                    trace := trace w @ concat (map (failed_round url) [1..retries - 1])
                               @ [Get url, Print_attempt_failed retries url]\<rparr>))
   \<and> (retries \<le> 0 \<longrightarrow> fetch_with_retry E url retries w = (None, w))"
proof -
  have a: "\<forall>r w'. fetch_with_retry E url retries w = (r, w') \<longrightarrow>
      (\<exists>evs. trace w' = trace w @ evs \<and> count_list evs (Get url) = sent w' - sent w
             \<and> sent w' - sent w \<le> nat retries)"
  proof (intro allI impI)
    fix r w'
    assume "fetch_with_retry E url retries w = (r, w')"
    then have "retry_loop E url retries [1..retries] w = (r, w')"
      by (simp add: fetch_with_retry_def)
    from retry_loop_bound [OF this]
    show "\<exists>evs. trace w' = trace w @ evs \<and> count_list evs (Get url) = sent w' - sent w
             \<and> sent w' - sent w \<le> nat retries"
      by auto
  qed
  have b: "\<forall>k body. int k < retries \<and> (\<forall>j<k. http_get E (sent w + j) url = None)
                 \<and> http_get E (sent w + k) url = Some body \<longrightarrow>
        fetch_with_retry E url retries w =
          (Some body, w\<lparr>sent := sent w + Suc k,
                         trace := trace w @ concat (map (failed_round url) [1..int k]) @ [Get url]\<rparr>)"
  proof (intro allI impI, elim conjE)
    fix k body
    assume k: "int k < retries" and f: "\<forall>j<k. http_get E (sent w + j) url = None"
      and s: "http_get E (sent w + k) url = Some body"
    from k have "1 + int k \<le> retries" by simp
    from retry_loop_success_after [OF f s this]
    show "fetch_with_retry E url retries w =
          (Some body, w\<lparr>sent := sent w + Suc k,
                         trace := trace w @ concat (map (failed_round url) [1..int k]) @ [Get url]\<rparr>)"
      by (simp add: fetch_with_retry_def)
  qed
  have c: "0 < retries \<and> (\<forall>j<nat retries. http_get E (sent w + j) url = None) \<longrightarrow>
        fetch_with_retry E url retries w =
          (None, w\<lparr>sent := sent w + nat retries,
                    trace := trace w @ concat (map (failed_round url) [1..retries - 1])
                               @ [Get url, Print_attempt_failed retries url]\<rparr>)"
  proof (intro impI, elim conjE)
    assume p: "0 < retries" and f: "\<forall>j<nat retries. http_get E (sent w + j) url = None"
    define k where "k = nat (retries - 1)"
    have sk: "Suc k = nat retries" and e: "1 + int k = retries"
      using p by (simp_all add: k_def)
    from f have f': "\<forall>j<Suc k. http_get E (sent w + j) url = None"
      by (simp add: sk)
    from retry_loop_all_fail [OF f' e]
    show "fetch_with_retry E url retries w =
          (None, w\<lparr>sent := sent w + nat retries,
                    trace := trace w @ concat (map (failed_round url) [1..retries - 1])
                               @ [Get url, Print_attempt_failed retries url]\<rparr>)"
      by (simp add: fetch_with_retry_def sk)
  qed
  have d: "retries \<le> 0 \<longrightarrow> fetch_with_retry E url retries w = (None, w)"
    by (simp add: fetch_with_retry_def)
  from a b c d show ?thesis by blast
qed

text \<open>Three attempts: two failures then a success, and three failures; and no attempt allowed.\<close>

theorem fetch_with_retry_attempts_and_backoff_witness:
  "fetch_with_retry flaky_env ''http://s/a'' 3 \<lparr>sent = 0, trace = []\<rparr> =
     (Some ''<html></html>'',
      \<lparr>sent = 3,
       trace = [Get ''http://s/a'', Print_attempt_failed 1 ''http://s/a'', Sleep 1000,
                Get ''http://s/a'', Print_attempt_failed 2 ''http://s/a'', Sleep 1000,
                Get ''http://s/a'']\<rparr>)
   \<and> fetch_with_retry down_env ''http://s/a'' 3 \<lparr>sent = 0, trace = []\<rparr> =
     (None,
      \<lparr>sent = 3,
       trace = [Get ''http://s/a'', Print_attempt_failed 1 ''http://s/a'', Sleep 1000,
                Get ''http://s/a'', Print_attempt_failed 2 ''http://s/a'', Sleep 1000,
                Get ''http://s/a'', Print_attempt_failed 3 ''http://s/a'']\<rparr>)
   \<and> fetch_with_retry down_env ''http://s/a'' 0 \<lparr>sent = 0, trace = []\<rparr> =
     (None, \<lparr>sent = 0, trace = []\<rparr>)"
proof -
  let ?u = "''http://s/a''"
  let ?w = "\<lparr>sent = 0, trace = []\<rparr>"
  have z: "fetch_with_retry down_env ?u 0 ?w = (None, ?w)"
    using fetch_with_retry_attempts_and_backoff [of down_env ?u 0 ?w] by simp
  have u2: "[1..int 2] = [1, 2]" and u2': "[1..3 - 1] = [1, 2::int]"
    by (simp_all add: upto_rec1)
  have f1: "int 2 < 3 \<and> (\<forall>j<2. http_get flaky_env (sent ?w + j) ?u = None)
            \<and> http_get flaky_env (sent ?w + 2) ?u = Some ''<html></html>''"
    by (simp add: flaky_env_def fails_twice_def)
  have f2: "(0::int) < 3 \<and> (\<forall>j<nat 3. http_get down_env (sent ?w + j) ?u = None)"
    by (simp add: down_env_def always_down_def)
  from fetch_with_retry_attempts_and_backoff [of flaky_env ?u 3 ?w] f1
  have "fetch_with_retry flaky_env ?u 3 ?w =
          (Some ''<html></html>'', ?w\<lparr>sent := sent ?w + Suc 2,
                         trace := trace ?w @ concat (map (failed_round ?u) [1..int 2]) @ [Get ?u]\<rparr>)"
    by blast
  moreover
  from fetch_with_retry_attempts_and_backoff [of down_env ?u 3 ?w] f2
  have "fetch_with_retry down_env ?u 3 ?w =
          (None, ?w\<lparr>sent := sent ?w + nat 3,
                    trace := trace ?w @ concat (map (failed_round ?u) [1..3 - 1])
                               @ [Get ?u, Print_attempt_failed 3 ?u]\<rparr>)"
    by blast
  ultimately show ?thesis
    using z unfolding u2 u2' by (simp add: failed_round_def)
qed

subsection \<open>Runs of the crawl loop\<close>

lemma state_of_simps [simp]: "state_of (Inl (e, s)) = s" "state_of (Inr s) = s"
  by (simp_all add: state_of_def)

lemma dequeued_append: "dequeued (xs @ ys) = dequeued xs @ dequeued ys"
  by (induction xs rule: dequeued.induct) auto

lemma enqueued_append: "enqueued (xs @ ys) = enqueued xs @ enqueued ys"
  by (induction xs rule: enqueued.induct) auto

lemma crawl_loop_stop:
  assumes "\<not> (queue s \<noteq> [] \<and> int (length (visited s)) < M)"
  shows "crawl_loop E M sd s = Inr s"
  using assms by (subst crawl_loop.simps) auto

lemma crawl_loop_pass:
  assumes "queue s \<noteq> [] \<and> int (length (visited s)) < M"
  shows "crawl_loop E M sd s =
           (case crawl_iter E sd s of Inl err \<Rightarrow> Inl err | Inr s' \<Rightarrow> crawl_loop E M sd s')"
  using assms by (subst crawl_loop.simps) simp

lemma crawl_loop_invariant:
  assumes step: "\<And>s. P s \<Longrightarrow> queue s \<noteq> [] \<Longrightarrow> int (length (visited s)) < M \<Longrightarrow>
                   P (state_of (crawl_iter E sd s))"
    and init: "P s"
  shows "P (state_of (crawl_loop E M sd s))"
  using step init
proof (induction E M sd s rule: crawl_loop.induct)
  case (1 E M sd s)
  note step = "1.prems"(1)
  show ?case
  proof (cases "queue s \<noteq> [] \<and> int (length (visited s)) < M")
    case False
    then show ?thesis using "1.prems"(2) by (simp add: crawl_loop_stop [OF False])
  next
    case True
    then have p: "P (state_of (crawl_iter E sd s))"
      using step [of s] "1.prems"(2) by blast
    show ?thesis
    proof (cases "crawl_iter E sd s")
      case (Inl err)
      then show ?thesis using p by (simp add: crawl_loop_pass [OF True])
    next
      case (Inr s')
      have "P s'"
        using p Inr by simp
      then have "P (state_of (crawl_loop E M sd s'))"
        using "1.IH" [OF True Inr] step by blast
      then show ?thesis using Inr by (simp add: crawl_loop_pass [OF True])
    qed
  qed
qed

lemma crawl_run_invariant:
  assumes run: "crawl_run E M sd s0 s"
    and step: "\<And>s. P s \<Longrightarrow> queue s \<noteq> [] \<Longrightarrow> int (length (visited s)) < M \<Longrightarrow>
                   P (state_of (crawl_iter E sd s))"
    and init: "P s0"
  shows "P s"
  using run
proof (induction rule: crawl_run.induct)
  case start
  show ?case by (rule init)
next
  case (pass s s')
  from step [OF pass.IH pass.hyps(2) pass.hyps(3)] pass.hyps(4)
  show ?case by simp
qed

lemma crawl_run_trans:
  "crawl_run E M sd s1 s2 \<Longrightarrow> crawl_run E M sd s0 s1 \<Longrightarrow> crawl_run E M sd s0 s2"
  by (induction rule: crawl_run.induct) (auto intro: crawl_run.pass)

lemma crawl_loop_run:
  "crawl_loop E M sd s = Inr s' \<Longrightarrow> crawl_run E M sd s s'"
proof (induction E M sd s rule: crawl_loop.induct)
  case (1 E M sd s)
  show ?case
  proof (cases "queue s \<noteq> [] \<and> int (length (visited s)) < M")
    case False
    then have "s' = s" using "1.prems" by (simp add: crawl_loop_stop [OF False])
    then show ?thesis by (simp add: crawl_run.start)
  next
    case True
    then obtain s1 where i: "crawl_iter E sd s = Inr s1" and l: "crawl_loop E M sd s1 = Inr s'"
      using "1.prems" by (auto simp: crawl_loop_pass [OF True] split: sum.splits)
    have "crawl_run E M sd s s1"
      using True i by (auto intro: crawl_run.pass crawl_run.start)
    with "1.IH" [OF True i l] show ?thesis
      by (rule crawl_run_trans)
  qed
qed

text \<open>What a fetch and the link loop add to the log and to the queue.\<close>

lemma retry_loop_log:
  "\<exists>evs. trace (snd (retry_loop E url retries as w)) = trace w @ evs
         \<and> dequeued evs = [] \<and> enqueued evs = []
         \<and> (as \<noteq> [] \<longrightarrow> (\<exists>rest. evs = Get url # rest))"
proof (induction as arbitrary: w)
  case Nil
  then show ?case by simp
next
  case (Cons a as)
  show ?case
  proof (cases "http_get E (sent w) url")
    case (Some body)
    then show ?thesis by simp
  next
    case None
    show ?thesis
    proof (cases "a = retries")
      case True
      with None show ?thesis by simp
    next
      case False
      let ?w = "w\<lparr>sent := sent w + 1, trace := trace w @ failed_round url a\<rparr>"
      have r: "retry_loop E url retries (a # as) w = retry_loop E url retries as ?w"
        using None False by (simp add: failed_round_def)
      from Cons.IH [of ?w]
      obtain evs where "trace (snd (retry_loop E url retries as ?w)) = trace ?w @ evs"
        "dequeued evs = []" "enqueued evs = []"
        by blast
      then have "trace (snd (retry_loop E url retries (a # as) w)) = trace w @ (failed_round url a @ evs)
         \<and> dequeued (failed_round url a @ evs) = [] \<and> enqueued (failed_round url a @ evs) = []
         \<and> (\<exists>rest. failed_round url a @ evs = Get url # rest)"
        unfolding r by (simp add: failed_round_def)
      then show ?thesis by blast
    qed
  qed
qed

lemma fetch_log:
  fixes s :: crawl_state
  assumes "fetch_with_retry E url 3 s = (r, s')"
  shows "\<exists>rest. trace s' = trace s @ Get url # rest \<and> dequeued rest = [] \<and> enqueued rest = []"
proof -
  have "[1..3] \<noteq> []"
    by (simp add: upto_rec1)
  with retry_loop_log [of E url 3 "[1..3]" s]
  obtain evs rest where "trace (snd (retry_loop E url 3 [1..3] s)) = trace s @ evs"
    "dequeued evs = []" "enqueued evs = []" "evs = Get url # rest"
    by blast
  with assms show ?thesis
    by (auto simp: fetch_with_retry_def)
qed

lemma enqueue_links_effect:
  "\<exists>new. trace (state_of (enqueue_links E sd cur links s)) = trace s @ map Enqueue new
        \<and> queue (state_of (enqueue_links E sd cur links s)) = queue s @ new
        \<and> (\<forall>url \<in> set new. eligible E sd url)
        \<and> visited (state_of (enqueue_links E sd cur links s)) = visited s
        \<and> duplicate_urls (state_of (enqueue_links E sd cur links s)) = duplicate_urls s
        \<and> page_id (state_of (enqueue_links E sd cur links s)) = page_id s
        \<and> pages (state_of (enqueue_links E sd cur links s)) = pages s
        \<and> sent (state_of (enqueue_links E sd cur links s)) = sent s"
proof (induction links arbitrary: s)
  case Nil
  have "trace s = trace s @ map Enqueue [] \<and> queue s = queue s @ []" by simp
  then show ?case by (simp del: append_Nil2) 
next
  case (Cons raw links)
  let ?R = "\<lambda>s' new. trace s' = trace s @ map Enqueue new
        \<and> queue s' = queue s @ new
        \<and> (\<forall>url \<in> set new. eligible E sd url)
        \<and> visited s' = visited s \<and> duplicate_urls s' = duplicate_urls s
        \<and> page_id s' = page_id s \<and> pages s' = pages s \<and> sent s' = sent s"
  have stop: "?R s []" by simp
  have skip: "\<exists>new. ?R (state_of (enqueue_links E sd cur links s)) new"
    using Cons.IH [of s] by blast
  show ?case
  proof (cases "urljoin E cur raw")
    case (Inl e)
    then show ?thesis using stop by (auto simp del: append_Nil2 intro!: exI [where x = "[]"])
  next
    case j: (Inr full)
    show ?thesis
    proof (cases "is_valid_url (urlparse E) full")
      case (Inl e)
      then show ?thesis using j by (auto simp del: append_Nil2 intro!: exI [where x = "[]"])
    next
      case v: (Inr ok)
      show ?thesis
      proof (cases ok)
        case False
        then show ?thesis using j v skip by simp
      next
        case True
        show ?thesis
        proof (cases "urlparse E full")
          case (Inl e)
          then show ?thesis using j v True by (auto simp del: append_Nil2 intro!: exI [where x = "[]"])
        next
          case p: (Inr parsed)
          show ?thesis
          proof (cases "netloc parsed = sd")
            case False
            then show ?thesis using j v True p skip by simp
          next
            case same: True
            let ?s = "s\<lparr>trace := trace s @ [Enqueue full], queue := queue s @ [full]\<rparr>"
            have el: "eligible E sd full"
              using v True p same by (simp add: eligible_def)
            from Cons.IH [of ?s]
            obtain new where n: "trace (state_of (enqueue_links E sd cur links ?s)) = trace ?s @ map Enqueue new"
              "queue (state_of (enqueue_links E sd cur links ?s)) = queue ?s @ new"
              "\<forall>url \<in> set new. eligible E sd url"
              "visited (state_of (enqueue_links E sd cur links ?s)) = visited ?s"
              "duplicate_urls (state_of (enqueue_links E sd cur links ?s)) = duplicate_urls ?s"
              "page_id (state_of (enqueue_links E sd cur links ?s)) = page_id ?s"
              "pages (state_of (enqueue_links E sd cur links ?s)) = pages ?s"
              "sent (state_of (enqueue_links E sd cur links ?s)) = sent ?s"
              by blast
            have "enqueue_links E sd cur (raw # links) s = enqueue_links E sd cur links ?s"
              using j v True p same by simp
            then have "?R (state_of (enqueue_links E sd cur (raw # links) s)) (full # new)"
              using n el by simp
            then show ?thesis by blast
          qed
        qed
      qed
    qed
  qed
qed

lemma enqueued_map_Enqueue [simp]: "enqueued (map Enqueue new) = new"
  by (induction new) auto

lemma dequeued_map_Enqueue [simp]: "dequeued (map Enqueue new) = []"
  by (induction new) auto

lemma crawl_iter_effect:
  assumes q: "queue s = u # rest"
  shows "\<exists>new. dequeued (trace (state_of (crawl_iter E sd s))) = dequeued (trace s) @ [u]
             \<and> enqueued (trace (state_of (crawl_iter E sd s))) = enqueued (trace s) @ new
             \<and> queue (state_of (crawl_iter E sd s)) = rest @ new
             \<and> (\<forall>url \<in> set new. eligible E sd url)
             \<and> (visited (state_of (crawl_iter E sd s)) = visited s
                \<or> (u \<notin> set (visited s) \<and> visited (state_of (crawl_iter E sd s)) = visited s @ [u]))"
proof (cases "u \<in> set (visited s)")
  case True
  then have "crawl_iter E sd s =
      Inr (s\<lparr>trace := trace s @ [Dequeue u], queue := rest, duplicate_urls := duplicate_urls s + 1\<rparr>)"
    by (simp add: crawl_iter_def q)
  then show ?thesis
    by (simp add: dequeued_append enqueued_append)
next
  case False
  let ?s1 = "s\<lparr>trace := trace s @ [Dequeue u], queue := rest\<rparr>"
  obtain r s2 where f: "fetch_with_retry E u 3 ?s1 = (r, s2)"
    by (cases "fetch_with_retry E u 3 ?s1")
  from fetch_log [OF f] obtain evs where t2: "trace s2 = trace ?s1 @ Get u # evs"
    and d2: "dequeued evs = []" and e2: "enqueued evs = []"
    by blast
  from fetch_keeps_crawl_fields [OF f]
  have k2: "queue s2 = rest" "visited s2 = visited s"
    by simp_all
  show ?thesis
  proof (cases r)
    case None
    then have "crawl_iter E sd s = Inr (s2\<lparr>trace := trace s2 @ [Print_skipping u]\<rparr>)"
      using False f by (simp add: crawl_iter_def q)
    then show ?thesis
      using t2 d2 e2 k2 by (simp add: dequeued_append enqueued_append)
  next
    case (Some body)
    let ?s3 = "s2\<lparr>trace := trace s2 @ [Print_saved (page_id s2)],
                   pages := pages s2 @ [(page_id s2, body)]\<rparr>"
    let ?o = "enqueue_links E sd u (find_hrefs E body) ?s3"
    from enqueue_links_effect [of E sd u "find_hrefs E body" ?s3]
    obtain new where t4: "trace (state_of ?o) = trace ?s3 @ map Enqueue new"
      and q4: "queue (state_of ?o) = queue ?s3 @ new"
      and el: "\<forall>url \<in> set new. eligible E sd url"
      and v4: "visited (state_of ?o) = visited ?s3"
      by blast
    have c: "crawl_iter E sd s =
        (case ?o of Inl err \<Rightarrow> Inl err
         | Inr s4 \<Rightarrow> Inr (s4\<lparr>trace := trace s4 @ [Sleep 500],
                              visited := set_add u (visited s4),
                              page_id := page_id s4 + 1\<rparr>))"
      using False f Some by (simp add: crawl_iter_def q Let_def)
    show ?thesis
    proof (cases ?o)
      case (Inl err)
      obtain e s4 where err: "err = (e, s4)" by (cases err)
      have "state_of (crawl_iter E sd s) = state_of ?o"
        using c Inl by simp
      then show ?thesis
        using t4 q4 el v4 t2 d2 e2 k2
        by (auto simp: dequeued_append enqueued_append)
    next
      case (Inr s4)
      then have s4: "state_of ?o = s4" by simp
      have t4': "trace s4 = trace ?s3 @ map Enqueue new"
        and q4': "queue s4 = queue ?s3 @ new"
        and v4': "visited s4 = visited s"
        using t4 q4 v4 k2 unfolding s4 by simp_all
      have "crawl_iter E sd s =
              Inr (s4\<lparr>trace := trace s4 @ [Sleep 500], visited := set_add u (visited s4),
                      page_id := page_id s4 + 1\<rparr>)"
        using c Inr by simp
      then have "state_of (crawl_iter E sd s) =
              s4\<lparr>trace := trace s4 @ [Sleep 500], visited := visited s @ [u],
                 page_id := page_id s4 + 1\<rparr>"
        using v4' False by (simp add: set_add_def)
      then show ?thesis
        using t4' q4' el t2 d2 e2 k2 False
        by (auto simp: dequeued_append enqueued_append)
    qed
  qed
qed

subsection \<open>The page bound\<close>

lemma crawl_state_of_crawl:
  "urlparse E seed = Inr p \<Longrightarrow>
     crawl_state_of (crawl E seed M) = state_of (crawl_loop E M (netloc p) (init_state seed))"
  by (cases "crawl_loop E M (netloc p) (init_state seed)")
     (auto simp: crawl_def crawl_state_of_def)

lemma crawl_state_of_unparsed:
  "urlparse E seed = Inl e \<Longrightarrow> crawl_state_of (crawl E seed M) = init_state seed"
  by (simp add: crawl_def crawl_state_of_def)

lemma crawl_state_of_reached:
  "\<exists>sd. crawl_state_of (crawl E seed M) = state_of (crawl_loop E M sd (init_state seed))
        \<or> crawl_state_of (crawl E seed M) = init_state seed"
  by (cases "urlparse E seed") (auto simp: crawl_state_of_crawl crawl_state_of_unparsed)

lemma site5_loop:
  "crawl_loop site5_env 2 ''s'' (init_state ''http://s/1'') = Inr site5_after_two"
  by code_simp

lemma site5_crawl:
  "crawl site5_env ''http://s/1'' 2 =
     Inr \<lparr>final = site5_after_two,
          visited_txt = ''http://s/1'' @ [CHR 0x0A] @ ''http://s/2'' @ [CHR 0x0A],
          pages_crawled = 2, unique_urls = 2, duplicates = 0\<rparr>"
  by code_simp

text \<open>The visited list has no repetition and at most one more member after a pass.\<close>

lemma visited_step:
  assumes "distinct (visited s) \<and> length (visited s) \<le> nat M"
    and "queue s \<noteq> []" and "int (length (visited s)) < M"
  shows "distinct (visited (state_of (crawl_iter E sd s)))
         \<and> length (visited (state_of (crawl_iter E sd s))) \<le> nat M"
proof -
  obtain u rest where q: "queue s = u # rest"
    using assms(2) by (cases "queue s") auto
  from crawl_iter_effect [OF q, of E sd]
  have "visited (state_of (crawl_iter E sd s)) = visited s
        \<or> (u \<notin> set (visited s) \<and> visited (state_of (crawl_iter E sd s)) = visited s @ [u])"
    by blast
  then show ?thesis
    using assms(1,3) by auto
qed

text \<open>
  C7. At every head of the loop, and in the state a crawl ends in, the visited set has at
  most \<open>MAX_PAGES\<close> members (none when the bound is negative), and the count of the
  summary is that number. With a bound of 2 the crawl of the five-page site visits exactly
  pages 1 and 2 and stops with three URLs left in the frontier.
\<close>

theorem visited_never_exceeds_max_pages:
  "(crawl_run E M sd (init_state seed) s \<longrightarrow> distinct (visited s) \<and> length (visited s) \<le> nat M)
   \<and> distinct (visited (crawl_state_of (crawl E seed M)))
   \<and> length (visited (crawl_state_of (crawl E seed M))) \<le> nat M
   \<and> (\<forall>r. crawl E seed M = Inr r \<longrightarrow>
         pages_crawled r = length (visited (final r)) \<and> pages_crawled r \<le> nat M)
   \<and> (case crawl site5_env ''http://s/1'' 2 of
         Inl err \<Rightarrow> False
       | Inr r \<Rightarrow> pages_crawled r = 2 \<and> visited (final r) = [''http://s/1'', ''http://s/2'']
                  \<and> queue (final r) = [''http://s/3'', ''http://s/4'', ''http://s/1''])"
proof -
  let ?P = "\<lambda>s. distinct (visited s) \<and> length (visited s) \<le> nat M"
  have init: "?P (init_state seed)"
    by (simp add: init_state_def)
  have a: "crawl_run E M sd (init_state seed) s \<longrightarrow> ?P s"
  proof
    assume run: "crawl_run E M sd (init_state seed) s"
    show "?P s"
      by (rule crawl_run_invariant [where P = ?P, OF run _ init]) (rule visited_step)
  qed
  have loop: "?P (state_of (crawl_loop E M sd' (init_state seed)))" for sd'
    by (rule crawl_loop_invariant [where P = ?P, OF _ init]) (rule visited_step)
  have b: "?P (crawl_state_of (crawl E seed M))"
    using crawl_state_of_reached [of E seed M] loop init by auto
  have c: "\<forall>r. crawl E seed M = Inr r \<longrightarrow>
         pages_crawled r = length (visited (final r)) \<and> pages_crawled r \<le> nat M"
  proof (intro allI impI)
    fix r
    assume r: "crawl E seed M = Inr r"
    then have "crawl_state_of (crawl E seed M) = final r"
      by (simp add: crawl_state_of_def)
    moreover have "pages_crawled r = length (visited (final r))"
      using r by (auto simp: crawl_def split: sum.splits)
    ultimately show "pages_crawled r = length (visited (final r)) \<and> pages_crawled r \<le> nat M"
      using b by simp
  qed
  have d: "case crawl site5_env ''http://s/1'' 2 of
         Inl err \<Rightarrow> False
       | Inr r \<Rightarrow> pages_crawled r = 2 \<and> visited (final r) = [''http://s/1'', ''http://s/2'']
                  \<and> queue (final r) = [''http://s/3'', ''http://s/4'', ''http://s/1'']"
    by (simp add: site5_crawl site5_after_two_def)
  from a b c d show ?thesis by blast
qed

text \<open>The state after two passes over the five-page site is reached and within the bound.\<close>

theorem visited_never_exceeds_max_pages_witness:
  "distinct (visited site5_after_two) \<and> length (visited site5_after_two) \<le> nat 2
   \<and> length (visited site5_after_two) = 2 \<and> queue site5_after_two \<noteq> []"
proof -
  have run: "crawl_run site5_env 2 ''s'' (init_state ''http://s/1'') site5_after_two"
    by (rule crawl_loop_run [OF site5_loop])
  from visited_never_exceeds_max_pages [of site5_env 2 "''s''" "''http://s/1''" site5_after_two] run
  have "distinct (visited site5_after_two) \<and> length (visited site5_after_two) \<le> nat 2"
    by blast
  then show ?thesis
    by (simp add: site5_after_two_def)
qed

subsection \<open>The order of the frontier\<close>

lemma fifo_step:
  assumes "dequeued (trace s) @ queue s = base @ enqueued (trace s)"
    and "queue s \<noteq> []" and "int (length (visited s)) < M"
  shows "dequeued (trace (state_of (crawl_iter E sd s))) @ queue (state_of (crawl_iter E sd s))
         = base @ enqueued (trace (state_of (crawl_iter E sd s)))"
proof -
  obtain u rest where q: "queue s = u # rest"
    using assms(2) by (cases "queue s") auto
  from crawl_iter_effect [OF q, of E sd]
  obtain new where "dequeued (trace (state_of (crawl_iter E sd s))) = dequeued (trace s) @ [u]"
    "enqueued (trace (state_of (crawl_iter E sd s))) = enqueued (trace s) @ new"
    "queue (state_of (crawl_iter E sd s)) = rest @ new"
    by blast
  then show ?thesis
    using assms(1) q by simp
qed

text \<open>
  C8. A pass of the loop removes the head of the queue and puts the links it keeps at the
  end. So in every state of a crawl the URLs dequeued so far, followed by the URLs still
  queued, are the seed followed by the URLs enqueued so far, in that order: the
  \<open>k\<close>-th URL to leave the frontier is the \<open>k\<close>-th URL that entered it.
\<close>

theorem frontier_is_fifo:
  "(\<forall>u rest. queue s = u # rest \<longrightarrow>
      (\<exists>new. queue (state_of (crawl_iter E sd s)) = rest @ new
            \<and> dequeued (trace (state_of (crawl_iter E sd s))) = dequeued (trace s) @ [u]
            \<and> enqueued (trace (state_of (crawl_iter E sd s))) = enqueued (trace s) @ new))
   \<and> (crawl_run E M sd (init_state seed) s' \<longrightarrow>
        dequeued (trace s') @ queue s' = seed # enqueued (trace s'))
   \<and> dequeued (trace (crawl_state_of (crawl E seed M))) @ queue (crawl_state_of (crawl E seed M))
       = seed # enqueued (trace (crawl_state_of (crawl E seed M)))
   \<and> (\<forall>k < length (dequeued (trace (crawl_state_of (crawl E seed M)))).
        dequeued (trace (crawl_state_of (crawl E seed M))) ! k
        = (seed # enqueued (trace (crawl_state_of (crawl E seed M)))) ! k)"
proof -
  let ?P = "\<lambda>s. dequeued (trace s) @ queue s = [seed] @ enqueued (trace s)"
  have init: "?P (init_state seed)"
    by (simp add: init_state_def)
  have a: "\<forall>u rest. queue s = u # rest \<longrightarrow>
      (\<exists>new. queue (state_of (crawl_iter E sd s)) = rest @ new
            \<and> dequeued (trace (state_of (crawl_iter E sd s))) = dequeued (trace s) @ [u]
            \<and> enqueued (trace (state_of (crawl_iter E sd s))) = enqueued (trace s) @ new)"
  proof (intro allI impI)
    fix u rest
    assume q: "queue s = u # rest"
    from crawl_iter_effect [OF q, of E sd]
    show "\<exists>new. queue (state_of (crawl_iter E sd s)) = rest @ new
            \<and> dequeued (trace (state_of (crawl_iter E sd s))) = dequeued (trace s) @ [u]
            \<and> enqueued (trace (state_of (crawl_iter E sd s))) = enqueued (trace s) @ new"
      by blast
  qed
  have b: "crawl_run E M sd (init_state seed) s' \<longrightarrow>
        dequeued (trace s') @ queue s' = seed # enqueued (trace s')"
  proof
    assume run: "crawl_run E M sd (init_state seed) s'"
    have "?P s'"
      by (rule crawl_run_invariant [where P = ?P, OF run _ init]) (rule fifo_step)
    then show "dequeued (trace s') @ queue s' = seed # enqueued (trace s')"
      by simp
  qed
  have loop: "?P (state_of (crawl_loop E M sd' (init_state seed)))" for sd'
    by (rule crawl_loop_invariant [where P = ?P, OF _ init]) (rule fifo_step)
  have "?P (crawl_state_of (crawl E seed M))"
    using crawl_state_of_reached [of E seed M] loop init by auto
  then have c: "dequeued (trace (crawl_state_of (crawl E seed M))) @ queue (crawl_state_of (crawl E seed M))
       = seed # enqueued (trace (crawl_state_of (crawl E seed M)))"
    by simp
  have d: "\<forall>k < length (dequeued (trace (crawl_state_of (crawl E seed M)))).
        dequeued (trace (crawl_state_of (crawl E seed M))) ! k
        = (seed # enqueued (trace (crawl_state_of (crawl E seed M)))) ! k"
  proof (intro allI impI)
    fix k
    assume k: "k < length (dequeued (trace (crawl_state_of (crawl E seed M))))"
    have "(dequeued (trace (crawl_state_of (crawl E seed M))) @ queue (crawl_state_of (crawl E seed M))) ! k
          = dequeued (trace (crawl_state_of (crawl E seed M))) ! k"
      using k by (simp add: nth_append)
    then show "dequeued (trace (crawl_state_of (crawl E seed M))) ! k
        = (seed # enqueued (trace (crawl_state_of (crawl E seed M)))) ! k"
      unfolding c by simp
  qed
  from a b c d show ?thesis by blast
qed

lemma site5_loop_all:
  "crawl_loop site5_env 10 ''s'' (init_state ''http://s/1'') = Inr site5_after_all"
  by code_simp

text \<open>On the five-page site the order of leaving is the order of entering.\<close>

theorem frontier_is_fifo_witness:
  "dequeued (trace site5_after_all) =
     [''http://s/1'', ''http://s/2'', ''http://s/3'', ''http://s/4'', ''http://s/1'',
      ''http://s/5'', ''http://s/1'', ''http://s/1'']
   \<and> ''http://s/1'' # enqueued (trace site5_after_all) =
     [''http://s/1'', ''http://s/2'', ''http://s/3'', ''http://s/4'', ''http://s/1'',
      ''http://s/5'', ''http://s/1'', ''http://s/1'']
   \<and> dequeued (trace site5_after_all) @ queue site5_after_all
       = ''http://s/1'' # enqueued (trace site5_after_all)"
proof -
  have run: "crawl_run site5_env 10 ''s'' (init_state ''http://s/1'') site5_after_all"
    by (rule crawl_loop_run [OF site5_loop_all])
  from frontier_is_fifo [where E = site5_env and M = 10 and sd = "''s''" and seed = "''http://s/1''"
      and s' = site5_after_all] run
  have "dequeued (trace site5_after_all) @ queue site5_after_all
       = ''http://s/1'' # enqueued (trace site5_after_all)"
    by blast
  then show ?thesis
    by (simp add: site5_after_all_def)
qed

subsection \<open>What enters the frontier\<close>

lemma example_loop:
  "crawl_loop example_env 1 ''example.com'' (init_state ''https://example.com/'') = Inr example_after_one"
  by code_simp

lemma example_crawl:
  "crawl example_env ''https://example.com/'' 1 =
     Inr \<lparr>final = example_after_one,
          visited_txt = ''https://example.com/'' @ [CHR 0x0A],
          pages_crawled = 1, unique_urls = 1, duplicates = 0\<rparr>"
  by code_simp

lemma eligible_step:
  assumes "\<forall>url \<in> set (enqueued (trace s)). eligible E sd url"
    and "queue s \<noteq> []" and "int (length (visited s)) < M"
  shows "\<forall>url \<in> set (enqueued (trace (state_of (crawl_iter E sd s)))). eligible E sd url"
proof -
  obtain u rest where q: "queue s = u # rest"
    using assms(2) by (cases "queue s") auto
  from crawl_iter_effect [OF q, of E sd]
  obtain new where "enqueued (trace (state_of (crawl_iter E sd s))) = enqueued (trace s) @ new"
    "\<forall>url \<in> set new. eligible E sd url"
    by blast
  then show ?thesis
    using assms(1) by auto
qed

lemma eligible_seed:
  "urlparse E seed = Inr p \<Longrightarrow> is_valid_url (urlparse E) seed = Inr True \<Longrightarrow> eligible E (netloc p) seed"
  by (simp add: eligible_def)

text \<open>
  C6. Every URL appended to the queue (line 131), at any head of the loop and in the
  state a crawl ends in, was accepted by the validator and has the seed domain as its
  host. The seed itself is put in the queue unchecked (line 77); when it is a valid URL,
  every URL still queued at the end is eligible too. From the page of the example only
  \<open>https://example.com/a\<close> is enqueued.
\<close>

theorem only_eligible_urls_are_enqueued:
  "(crawl_run E M sd (init_state seed) s \<longrightarrow> (\<forall>url \<in> set (enqueued (trace s)). eligible E sd url))
   \<and> (\<forall>p. urlparse E seed = Inr p \<longrightarrow>
         (\<forall>url \<in> set (enqueued (trace (crawl_state_of (crawl E seed M)))). eligible E (netloc p) url)
       \<and> (is_valid_url (urlparse E) seed = Inr True \<longrightarrow>
            (\<forall>url \<in> set (queue (crawl_state_of (crawl E seed M))). eligible E (netloc p) url)))
   \<and> (\<forall>url. eligible E sd url \<longrightarrow>
         is_valid_url (urlparse E) url = Inr True
       \<and> (\<exists>parsed. urlparse E url = Inr parsed \<and> netloc parsed = sd))
   \<and> (case crawl example_env ''https://example.com/'' 1 of
         Inl err \<Rightarrow> False
       | Inr r \<Rightarrow> enqueued (trace (final r)) = [''https://example.com/a'']
                  \<and> queue (final r) = [''https://example.com/a''])"
proof -
  have a: "crawl_run E M sd (init_state seed) s \<longrightarrow> (\<forall>url \<in> set (enqueued (trace s)). eligible E sd url)"
  proof
    assume run: "crawl_run E M sd (init_state seed) s"
    show "\<forall>url \<in> set (enqueued (trace s)). eligible E sd url"
      by (rule crawl_run_invariant [where P = "\<lambda>s. \<forall>url \<in> set (enqueued (trace s)). eligible E sd url",
            OF run]) (rule eligible_step, simp_all add: init_state_def)
  qed
  have b: "\<forall>p. urlparse E seed = Inr p \<longrightarrow>
         (\<forall>url \<in> set (enqueued (trace (crawl_state_of (crawl E seed M)))). eligible E (netloc p) url)
       \<and> (is_valid_url (urlparse E) seed = Inr True \<longrightarrow>
            (\<forall>url \<in> set (queue (crawl_state_of (crawl E seed M))). eligible E (netloc p) url))"
  proof (intro allI impI)
    fix p
    assume p: "urlparse E seed = Inr p"
    let ?s = "state_of (crawl_loop E M (netloc p) (init_state seed))"
    have s: "crawl_state_of (crawl E seed M) = ?s"
      by (rule crawl_state_of_crawl [OF p])
    have e: "\<forall>url \<in> set (enqueued (trace ?s)). eligible E (netloc p) url"
      by (rule crawl_loop_invariant [where P = "\<lambda>s. \<forall>url \<in> set (enqueued (trace s)). eligible E (netloc p) url"])
         (rule eligible_step, simp_all add: init_state_def)
    have f: "dequeued (trace ?s) @ queue ?s = [seed] @ enqueued (trace ?s)"
      by (rule crawl_loop_invariant [where P = "\<lambda>s. dequeued (trace s) @ queue s = [seed] @ enqueued (trace s)"])
         (rule fifo_step, simp_all add: init_state_def)
    have "set (queue ?s) \<subseteq> set (dequeued (trace ?s) @ queue ?s)"
      by auto
    then have sub: "set (queue ?s) \<subseteq> insert seed (set (enqueued (trace ?s)))"
      unfolding f by simp
    have "is_valid_url (urlparse E) seed = Inr True \<longrightarrow>
            (\<forall>url \<in> set (queue ?s). eligible E (netloc p) url)"
      using sub e eligible_seed [OF p] by blast
    with e show "(\<forall>url \<in> set (enqueued (trace (crawl_state_of (crawl E seed M)))). eligible E (netloc p) url)
       \<and> (is_valid_url (urlparse E) seed = Inr True \<longrightarrow>
            (\<forall>url \<in> set (queue (crawl_state_of (crawl E seed M))). eligible E (netloc p) url))"
      unfolding s by blast
  qed
  have c: "\<forall>url. eligible E sd url \<longrightarrow>
         is_valid_url (urlparse E) url = Inr True
       \<and> (\<exists>parsed. urlparse E url = Inr parsed \<and> netloc parsed = sd)"
    by (auto simp: eligible_def split: sum.splits)
  have d: "case crawl example_env ''https://example.com/'' 1 of
         Inl err \<Rightarrow> False
       | Inr r \<Rightarrow> enqueued (trace (final r)) = [''https://example.com/a'']
                  \<and> queue (final r) = [''https://example.com/a'']"
    by (simp add: example_crawl example_after_one_def)
  from a b c d show ?thesis by blast
qed

text \<open>The one URL enqueued in the example is eligible; the two others on the page are not.\<close>

theorem only_eligible_urls_are_enqueued_witness:
  "enqueued (trace example_after_one) = [''https://example.com/a'']
   \<and> eligible example_env ''example.com'' ''https://example.com/a''
   \<and> \<not> eligible example_env ''example.com'' ''https://other.com/b''
   \<and> \<not> eligible example_env ''example.com'' ''mailto:x@y.com''"
proof -
  have run: "crawl_run example_env 1 ''example.com'' (init_state ''https://example.com/'') example_after_one"
    by (rule crawl_loop_run [OF example_loop])
  have enq: "enqueued (trace example_after_one) = [''https://example.com/a'']"
    by (simp add: example_after_one_def)
  from only_eligible_urls_are_enqueued [where E = example_env and M = 1 and sd = "''example.com''"
      and seed = "''https://example.com/''" and s = example_after_one] run
  have "\<forall>url \<in> set (enqueued (trace example_after_one)). eligible example_env ''example.com'' url"
    by blast
  then have "eligible example_env ''example.com'' ''https://example.com/a''"
    unfolding enq by simp
  moreover have "\<not> eligible example_env ''example.com'' ''https://other.com/b''"
    by code_simp
  moreover have "\<not> eligible example_env ''example.com'' ''mailto:x@y.com''"
    by code_simp
  ultimately show ?thesis
    using enq by blast
qed

subsection \<open>A URL whose fetch fails\<close>

text \<open>
  C3, as stated, fails: in this run \<open>/b\<close> is dequeued, fails its three attempts and is
  skipped; its second copy is dequeued next, requested again, saved and marked visited.
\<close>

theorem failed_url_never_fetched_again_counterexample:
  "crawl retry_env ''http://s/'' 5 =
     Inr \<lparr>final =
            \<lparr>sent = 5,
             trace = [Dequeue ''http://s/'', Get ''http://s/'', Print_saved 1,
                      Enqueue ''http://s/b'', Enqueue ''http://s/b'', Sleep 500,
                      Dequeue ''http://s/b'',
                      Get ''http://s/b'', Print_attempt_failed 1 ''http://s/b'', Sleep 1000,
                      Get ''http://s/b'', Print_attempt_failed 2 ''http://s/b'', Sleep 1000,
                      Get ''http://s/b'', Print_attempt_failed 3 ''http://s/b'',
                      Print_skipping ''http://s/b'',
                      Dequeue ''http://s/b'', Get ''http://s/b'', Print_saved 2, Sleep 500],
             queue = [], visited = [''http://s/'', ''http://s/b''],
             duplicate_urls = 0, page_id = 3,
             pages = [(1, ''two links''), (2, ''leaf'')]\<rparr>,
          visited_txt = ''http://s/'' @ [CHR 0x0A] @ ''http://s/b'' @ [CHR 0x0A],
          pages_crawled = 2, unique_urls = 2, duplicates = 0\<rparr>"
  by code_simp

lemma crawl_iter_fetches_head:
  assumes q: "queue s = u # rest" and nv: "u \<notin> set (visited s)"
  shows "\<exists>evs. trace (state_of (crawl_iter E sd s)) = trace s @ [Dequeue u, Get u] @ evs"
proof -
  let ?s1 = "s\<lparr>trace := trace s @ [Dequeue u], queue := rest\<rparr>"
  obtain r s2 where f: "fetch_with_retry E u 3 ?s1 = (r, s2)"
    by (cases "fetch_with_retry E u 3 ?s1")
  from fetch_log [OF f] obtain evs where t2: "trace s2 = trace s @ [Dequeue u, Get u] @ evs"
    by auto
  show ?thesis
  proof (cases r)
    case None
    then have "crawl_iter E sd s = Inr (s2\<lparr>trace := trace s2 @ [Print_skipping u]\<rparr>)"
      using nv f by (simp add: crawl_iter_def q)
    then have "trace (state_of (crawl_iter E sd s)) = trace s @ [Dequeue u, Get u] @ (evs @ [Print_skipping u])"
      using t2 by simp
    then show ?thesis by blast
  next
    case (Some body)
    let ?s3 = "s2\<lparr>trace := trace s2 @ [Print_saved (page_id s2)],
                   pages := pages s2 @ [(page_id s2, body)]\<rparr>"
    let ?o = "enqueue_links E sd u (find_hrefs E body) ?s3"
    from enqueue_links_effect [of E sd u "find_hrefs E body" ?s3]
    obtain new where t4: "trace (state_of ?o) = trace ?s3 @ map Enqueue new"
      by blast
    have c: "crawl_iter E sd s =
        (case ?o of Inl err \<Rightarrow> Inl err
         | Inr s4 \<Rightarrow> Inr (s4\<lparr>trace := trace s4 @ [Sleep 500],
                              visited := set_add u (visited s4),
                              page_id := page_id s4 + 1\<rparr>))"
      using nv f Some by (simp add: crawl_iter_def q Let_def)
    show ?thesis
    proof (cases ?o)
      case (Inl err)
      then have "state_of (crawl_iter E sd s) = state_of ?o"
        using c by simp
      then have "trace (state_of (crawl_iter E sd s))
                 = trace s @ [Dequeue u, Get u] @ (evs @ Print_saved (page_id s2) # map Enqueue new)"
        using t4 t2 by simp
      then show ?thesis by blast
    next
      case (Inr s4)
      then have "trace s4 = trace ?s3 @ map Enqueue new"
        using t4 by simp
      moreover have "trace (state_of (crawl_iter E sd s)) = trace s4 @ [Sleep 500]"
        using c Inr by simp
      ultimately have "trace (state_of (crawl_iter E sd s))
                 = trace s @ [Dequeue u, Get u] @ (evs @ Print_saved (page_id s2) # map Enqueue new @ [Sleep 500])"
        using t2 by simp
      then show ?thesis by blast
    qed
  qed
qed

lemma crawl_iter_all_attempts_fail:
  assumes q: "queue s = u # rest" and nv: "u \<notin> set (visited s)"
    and fail: "\<forall>j<3. http_get E (sent s + j) u = None"
  shows "crawl_iter E sd s =
           Inr (s\<lparr>sent := sent s + 3,
                   trace := trace s @ [Dequeue u] @ failed_round u 1 @ failed_round u 2
                              @ [Get u, Print_attempt_failed 3 u, Print_skipping u],
                   queue := rest\<rparr>)"
proof -
  let ?s1 = "s\<lparr>trace := trace s @ [Dequeue u], queue := rest\<rparr>"
  have f: "\<forall>j<Suc 2. http_get E (sent ?s1 + j) u = None"
    using fail by (simp add: numeral_3_eq_3)
  have u: "[1..3 - 1] = [1, 2::int]"
    by (simp add: upto_rec1)
  have "fetch_with_retry E u 3 ?s1 =
          (None, ?s1\<lparr>sent := sent ?s1 + Suc 2,
                      trace := trace ?s1 @ concat (map (failed_round u) [1..3 - 1])
                                 @ [Get u, Print_attempt_failed 3 u]\<rparr>)"
    unfolding fetch_with_retry_def
    by (rule retry_loop_all_fail [OF f]) simp
  then show ?thesis
    using nv unfolding u by (simp add: crawl_iter_def q)
qed

text \<open>
  C3, amended. When the URL at the head of the queue is not visited and its three attempts
  fail, the pass only removes that copy from the queue and logs the attempts and the
  skip: nothing is marked visited, saved, counted or enqueued. And whenever a URL that is
  not visited is at the head of the queue, the pass requests it, whatever happened to
  earlier copies.
\<close>

theorem failed_url_is_skipped_not_marked:
  "(queue s = u # rest \<and> u \<notin> set (visited s) \<and> (\<forall>j<3. http_get E (sent s + j) u = None) \<longrightarrow>
      crawl_iter E sd s =
        Inr (s\<lparr>sent := sent s + 3,
                trace := trace s @ [Dequeue u] @ failed_round u 1 @ failed_round u 2
                           @ [Get u, Print_attempt_failed 3 u, Print_skipping u],
                queue := rest\<rparr>))
   \<and> (queue s = u # rest \<and> u \<notin> set (visited s) \<longrightarrow>
        (\<exists>evs. trace (state_of (crawl_iter E sd s)) = trace s @ [Dequeue u, Get u] @ evs))"
  using crawl_iter_all_attempts_fail [of s u rest E sd] crawl_iter_fetches_head [of s u rest E sd]
  by blast

text \<open>The pass that skips \<open>/b\<close> in the run above.\<close>

theorem failed_url_is_skipped_not_marked_witness:
  "crawl_iter retry_env ''s'' retry_before_skip =
     Inr \<lparr>sent = 4,
          trace = [Dequeue ''http://s/'', Get ''http://s/'', Print_saved 1,
                   Enqueue ''http://s/b'', Enqueue ''http://s/b'', Sleep 500,
                   Dequeue ''http://s/b'',
                   Get ''http://s/b'', Print_attempt_failed 1 ''http://s/b'', Sleep 1000,
                   Get ''http://s/b'', Print_attempt_failed 2 ''http://s/b'', Sleep 1000,
                   Get ''http://s/b'', Print_attempt_failed 3 ''http://s/b'',
                   Print_skipping ''http://s/b''],
          queue = [''http://s/b''], visited = [''http://s/''],
          duplicate_urls = 0, page_id = 2, pages = [(1, ''two links'')]\<rparr>"
proof -
  have h: "queue retry_before_skip = ''http://s/b'' # [''http://s/b'']
           \<and> ''http://s/b'' \<notin> set (visited retry_before_skip)
           \<and> (\<forall>j<3. http_get retry_env (sent retry_before_skip + j) ''http://s/b'' = None)"
    by (simp add: retry_before_skip_def retry_env_def retry_get_def)
  from failed_url_is_skipped_not_marked [of retry_before_skip "''http://s/b''" "[''http://s/b'']" retry_env "''s''"] h
  have "crawl_iter retry_env ''s'' retry_before_skip =
        Inr (retry_before_skip\<lparr>sent := sent retry_before_skip + 3,
                trace := trace retry_before_skip @ [Dequeue ''http://s/b''] @ failed_round ''http://s/b'' 1
                           @ failed_round ''http://s/b'' 2
                           @ [Get ''http://s/b'', Print_attempt_failed 3 ''http://s/b'', Print_skipping ''http://s/b''],
                queue := [''http://s/b'']\<rparr>)"
    by blast
  then show ?thesis
    by (simp add: retry_before_skip_def failed_round_def)
qed

subsection \<open>A bound that allows no page\<close>

text \<open>
  C10, as stated, fails in its last two parts: line 85 parses the seed before the loop, so
  for the seed \<open>http://[\<close> and a bound of 0 \<open>urlparse\<close> raises \<open>ValueError\<close> and the
  call leaves \<open>crawl\<close> in its initial state, before \<open>visited.txt\<close> is written and before
  the summary.
\<close>

theorem nonpositive_bound_any_seed_counterexample:
  "crawl site5_env ''http://['' 0 = Inl (ValueError, init_state ''http://['')"
  by code_simp

text \<open>
  C10, amended. For every seed string and every bound of 0 or less the crawl makes no
  request: the loop makes no pass and the crawl ends in its initial state, with an empty
  log, an empty visited set and no page saved. When \<open>urlparse\<close> accepts the seed, the
  crawl returns with an empty \<open>visited.txt\<close> and a summary of 0 pages and 0 duplicates;
  when \<open>urlparse\<close> raises on the seed, that exception leaves \<open>crawl\<close> and neither the
  file nor the summary is produced.
\<close>

theorem nonpositive_bound_fetches_nothing:
  assumes "M \<le> 0"
  shows "crawl_state_of (crawl E seed M) = init_state seed
       \<and> trace (crawl_state_of (crawl E seed M)) = []
       \<and> sent (crawl_state_of (crawl E seed M)) = 0
       \<and> visited (crawl_state_of (crawl E seed M)) = []
       \<and> pages (crawl_state_of (crawl E seed M)) = []
       \<and> (\<forall>sd s. crawl_run E M sd (init_state seed) s \<longrightarrow> s = init_state seed)
       \<and> (\<forall>sd. crawl_loop E M sd (init_state seed) = Inr (init_state seed))
       \<and> (\<forall>parsed. urlparse E seed = Inr parsed \<longrightarrow>
             crawl E seed M =
               Inr \<lparr>final = init_state seed, visited_txt = [], pages_crawled = 0,
                    unique_urls = 0, duplicates = 0\<rparr>)
       \<and> (\<forall>e. urlparse E seed = Inl e \<longrightarrow> crawl E seed M = Inl (e, init_state seed))"
proof -
  have stop: "\<not> (queue s \<noteq> [] \<and> int (length (visited s)) < M)" for s :: crawl_state
    using assms by simp
  have l: "crawl_loop E M sd (init_state seed) = Inr (init_state seed)" for sd
    by (rule crawl_loop_stop [OF stop])
  have a: "\<forall>parsed. urlparse E seed = Inr parsed \<longrightarrow>
             crawl E seed M =
               Inr \<lparr>final = init_state seed, visited_txt = [], pages_crawled = 0,
                    unique_urls = 0, duplicates = 0\<rparr>"
    by (auto simp: crawl_def l) (simp_all add: init_state_def)
  have b: "\<forall>e. urlparse E seed = Inl e \<longrightarrow> crawl E seed M = Inl (e, init_state seed)"
    by (simp add: crawl_def)
  have c: "\<forall>sd s. crawl_run E M sd (init_state seed) s \<longrightarrow> s = init_state seed"
  proof (intro allI impI)
    fix sd s
    assume "crawl_run E M sd (init_state seed) s"
    then show "s = init_state seed"
      using stop by (induction rule: crawl_run.induct) auto
  qed
  have d: "crawl_state_of (crawl E seed M) = init_state seed"
  proof (cases "urlparse E seed")
    case (Inl e)
    then show ?thesis by (rule crawl_state_of_unparsed)
  next
    case (Inr parsed)
    then show ?thesis by (simp add: crawl_state_of_crawl l)
  qed
  have e: "trace (init_state seed) = [] \<and> sent (init_state seed) = 0
           \<and> visited (init_state seed) = [] \<and> pages (init_state seed) = []"
    by (simp add: init_state_def)
  from a b c d e l show ?thesis
    by simp
qed

text \<open>Bounds 0 and -3 on the five-page site, and the seed on which the parser raises.\<close>

theorem nonpositive_bound_fetches_nothing_witness:
  "crawl site5_env ''http://s/1'' 0 =
     Inr \<lparr>final = init_state ''http://s/1'', visited_txt = [], pages_crawled = 0, unique_urls = 0,
          duplicates = 0\<rparr>
   \<and> crawl site5_env ''http://s/1'' (- 3) =
     Inr \<lparr>final = init_state ''http://s/1'', visited_txt = [], pages_crawled = 0, unique_urls = 0,
          duplicates = 0\<rparr>
   \<and> trace (crawl_state_of (crawl site5_env ''http://s/1'' 0)) = []
   \<and> crawl site5_env ''http://['' (- 3) = Inl (ValueError, init_state ''http://['')
   \<and> trace (crawl_state_of (crawl site5_env ''http://['' (- 3))) = []"
proof -
  have p: "urlparse site5_env ''http://s/1'' = Inr \<lparr>scheme = ''http'', netloc = ''s''\<rparr>"
    and q: "urlparse site5_env ''http://['' = Inl ValueError"
    by code_simp+
  have z: "(0::int) \<le> 0" and n: "(- 3::int) \<le> 0"
    by simp_all
  from nonpositive_bound_fetches_nothing [OF z, of site5_env "''http://s/1''"]
    nonpositive_bound_fetches_nothing [OF n, of site5_env "''http://s/1''"]
    nonpositive_bound_fetches_nothing [OF n, of site5_env "''http://[''"] p q
  show ?thesis by blast
qed

end
